theory Spec2Isabelle
  imports Main "HOL-Library.Multiset"
begin

section \<open>Hypergraph diagrams of \<^verbatim>\<open>discopy/hypergraph.py\<close>\<close>

text \<open>
  The development embeds the class \<^verbatim>\<open>Hypergraph\<close>: its constructor with the
  canonical relabelling of spiders, the derived indexing (\<^verbatim>\<open>ports\<close>,
  \<^verbatim>\<open>box_wires\<close>, \<^verbatim>\<open>spider_wires\<close>), the composition algebra and the
  classification predicates.  Exceptions are values of a sum type, \<open>Inl\<close> carrying
  the exception raised.
\<close>

datatype error = ValueError | AxiomError | KeyError | NotImplementedError

subsection \<open>The surrounding type and box layer\<close>

text \<open>
  The class is parameterised by a \<^verbatim>\<open>category\<close>: the classes of types and of boxes
  live outside \<^verbatim>\<open>hypergraph.py\<close>.  The attributes the code reads from them are the
  fields of a record that every operation takes as its first argument:
  \<^item> \<open>zflag t\<close> is the truth value of \<^verbatim>\<open>getattr(typ, "z", 0)\<close> on an atomic type;
  \<^item> \<open>radj t\<close> is \<^verbatim>\<open>getattr(obj, "r", obj)\<close>, the right adjoint of an atomic type;
  \<^item> \<open>bdom\<close>, \<open>bcod\<close> and \<open>bdagger\<close> are \<^verbatim>\<open>box.dom\<close>, \<^verbatim>\<open>box.cod\<close> and
    \<^verbatim>\<open>box.dagger()\<close>;
  \<^item> \<open>spider_factory\<close> is \<^verbatim>\<open>category.ar.spider_factory\<close>.
  A type is the list of its atomic objects.
\<close>

record ('o, 'b) category =
  zflag :: "'o \<Rightarrow> bool"
  radj :: "'o \<Rightarrow> 'o"
  bdom :: "'b \<Rightarrow> 'o list"
  bcod :: "'b \<Rightarrow> 'o list"
  bdagger :: "'b \<Rightarrow> 'b"
  spider_factory :: "nat \<Rightarrow> nat \<Rightarrow> 'o \<Rightarrow> 'b"

text \<open>The normalisation \<^verbatim>\<open>typ.r if getattr(typ, "z", 0) else typ\<close> of the constructor.\<close>

definition tynorm :: "('o, 'b) category \<Rightarrow> 'o \<Rightarrow> 'o" where
  "tynorm K t = (if zflag K t then radj K t else t)"

subsection \<open>Python lists and dictionaries\<close>

text \<open>\<^verbatim>\<open>xs.index(x)\<close>; the code only asks for members of \<open>xs\<close>.\<close>

fun index_of :: "'a list \<Rightarrow> 'a \<Rightarrow> nat" where
  "index_of [] x = 0"
| "index_of (y # ys) x = (if x = y then 0 else Suc (index_of ys x))"

text \<open>The slice \<^verbatim>\<open>xs[i:j]\<close> for \<open>0 \<le> i\<close> and \<open>0 \<le> j\<close>.\<close>

definition slice :: "nat \<Rightarrow> nat \<Rightarrow> 'a list \<Rightarrow> 'a list" where
  "slice i j xs = take (j - i) (drop i xs)"

text \<open>
  A dictionary is the list of its insertions in order; a later insertion of a key
  overrides an earlier one.
\<close>

type_synonym ('k, 'v) dict = "('k \<times> 'v) list"

definition dict_get :: "('k, 'v) dict \<Rightarrow> 'k \<Rightarrow> 'v option" where
  "dict_get d k = map_of (rev d) k"

definition dict_keys :: "('k, 'v) dict \<Rightarrow> 'k list" where
  "dict_keys d = remdups (map fst d)"

subsection \<open>The data model\<close>

datatype kind = Input | Dom | Cod | Output

datatype 'o node = Node (kind: kind) (depth: "nat option") (idx: nat) (obj: 'o)

record ('o, 'b) hypergraph =
  domH :: "'o list"
  codH :: "'o list"
  boxes :: "'b list"
  wires :: "nat list"
  spider_types :: "'o list"
  offsets :: "nat option list"

text \<open>The argument \<^verbatim>\<open>spider_types\<close> of the constructor: absent, a mapping or a sequence.\<close>

datatype 'o spider_types_arg =
  NoTypes | TypeMap "(nat, 'o list) dict" | TypeSeq "'o list list"

definition nodes_of :: "kind \<Rightarrow> nat option \<Rightarrow> 'o list \<Rightarrow> 'o node list" where
  "nodes_of k d typ = map (\<lambda>(i, ob). Node k d i ob) (enumerate 0 typ)"

definition ports_of :: "('o, 'b) category \<Rightarrow> 'o list \<Rightarrow> 'o list \<Rightarrow> 'b list \<Rightarrow> 'o node list" where
  "ports_of K dom_ty cod_ty bs =
     nodes_of Input None dom_ty
     @ concat (map (\<lambda>(d, box). nodes_of Dom (Some d) (bdom K box) @ nodes_of Cod (Some d) (bcod K box))
                 (enumerate 0 bs))
     @ nodes_of Output None cod_ty"

definition ports :: "('o, 'b) category \<Rightarrow> ('o, 'b) hypergraph \<Rightarrow> 'o node list" where
  "ports K h = ports_of K (domH h) (codH h) (boxes h)"

definition n_spiders :: "('o, 'b) hypergraph \<Rightarrow> nat" where
  "n_spiders h = length (spider_types h)"

definition scalar_spiders :: "('o, 'b) hypergraph \<Rightarrow> nat list" where
  "scalar_spiders h = filter (\<lambda>i. count_list (wires h) i = 0) [0..<n_spiders h]"

fun box_wires_from :: "('o, 'b) category \<Rightarrow> nat \<Rightarrow> 'b list \<Rightarrow> nat list \<Rightarrow> (nat list \<times> nat list) list" where
  "box_wires_from K i [] ws = []"
| "box_wires_from K i (box # bs) ws =
     (slice i (i + length (bdom K box)) ws,
      slice (i + length (bdom K box)) (i + length (bdom K box @ bcod K box)) ws)
     # box_wires_from K (i + length (bdom K box @ bcod K box)) bs ws"

definition box_wires :: "('o, 'b) category \<Rightarrow> ('o, 'b) hypergraph \<Rightarrow> (nat list \<times> nat list) list" where
  "box_wires K h = box_wires_from K (length (domH h)) (boxes h) (wires h)"

text \<open>
  \<^verbatim>\<open>spider_wires\<close>: for each spider the set of its ports written into component 0
  (inputs of the diagram and codomain ports of boxes) and into component 1 (domain
  ports of boxes and outputs of the diagram).  \<open>add_ports c n ss\<close> is one loop
  \<^verbatim>\<open>for port, spider in enumerate(ss): result[spider][c].add(port + n)\<close>.  The
  constructor builds \<open>wires\<close> below \<open>n_spiders\<close>, so every \<^verbatim>\<open>result[spider]\<close> is in range.
\<close>

definition add_port :: "bool \<Rightarrow> nat \<Rightarrow> nat \<times> nat \<Rightarrow> (nat set \<times> nat set) list \<Rightarrow> (nat set \<times> nat set) list" where
  "add_port c n = (\<lambda>(port, spider) res.
     res[spider := (if c then (fst (res ! spider), insert (port + n) (snd (res ! spider)))
                    else (insert (port + n) (fst (res ! spider)), snd (res ! spider)))])"

definition add_ports :: "bool \<Rightarrow> nat \<Rightarrow> nat list \<Rightarrow> (nat set \<times> nat set) list \<Rightarrow> (nat set \<times> nat set) list" where
  "add_ports c n ss res = fold (add_port c n) (enumerate 0 ss) res"

definition add_box :: "nat list \<times> nat list \<Rightarrow> (nat set \<times> nat set) list \<times> nat \<Rightarrow> (nat set \<times> nat set) list \<times> nat" where
  "add_box = (\<lambda>(dom_wires, cod_wires) (res, n_ports).
     (add_ports False (n_ports + length dom_wires) cod_wires (add_ports True n_ports dom_wires res),
      n_ports + length (dom_wires @ cod_wires)))"

definition spider_wires :: "('o, 'b) category \<Rightarrow> ('o, 'b) hypergraph \<Rightarrow> (nat set \<times> nat set) list" where
  "spider_wires K h =
     (let result = replicate (n_spiders h) ({}, {});
          result = add_ports False 0 (take (length (domH h)) (wires h)) result;
          (result, n_ports) = fold add_box (box_wires K h) (result, length (domH h));
          output_wires = drop (length (wires h) - length (codH h)) (wires h)
      in add_ports True n_ports output_wires result)"

subsection \<open>The constructor\<close>

text \<open>
  \<^verbatim>\<open>__init__\<close>.  The length check raises \<^verbatim>\<open>ValueError\<close>; a wire whose label has no
  entry in the mapping raises \<^verbatim>\<open>KeyError\<close> at \<^verbatim>\<open>spider_types[s]\<close>; a spider type that
  is not atomic raises \<^verbatim>\<open>ValueError\<close>; a port whose type is neither the type of its
  spider nor its adjoint raises \<^verbatim>\<open>AxiomError\<close>.  The \<^verbatim>\<open>assert_isinstance\<close> checks are
  the typing of the arguments.
\<close>

definition type_check :: "('o, 'b) category \<Rightarrow> ('o, 'b) hypergraph \<Rightarrow> bool" where
  "type_check K h = list_all (\<lambda>(ob, (ins, outs)).
       \<forall>i \<in> ins \<union> outs. obj (ports K h ! i) \<in> set [ob, radj K ob])
     (zip (spider_types h) (spider_wires K h))"

definition relabeling_of :: "nat list \<Rightarrow> (nat, 'v) dict \<Rightarrow> nat list" where
  "relabeling_of ws d =
     (let relabeling = sort_key (index_of ws) (remdups ws)
      in relabeling @ sort (filter (\<lambda>k. k \<notin> set relabeling) (dict_keys d)))"

definition types_dict :: "'o node list \<Rightarrow> nat list \<Rightarrow> 'o spider_types_arg \<Rightarrow> (nat, 'o list) dict" where
  "types_dict ps ws spider_types_arg =
     (case spider_types_arg of
        NoTypes \<Rightarrow> zip ws (map (\<lambda>port. [obj port]) ps)
      | TypeMap m \<Rightarrow> m
      | TypeSeq l \<Rightarrow> enumerate 0 l)"

definition offsets_of :: "'b list \<Rightarrow> nat option list option \<Rightarrow> nat option list" where
  "offsets_of bs offsets_arg =
     (case offsets_arg of
        None \<Rightarrow> replicate (length bs) None
      | Some os \<Rightarrow> if os = [] then replicate (length bs) None else os)"

definition Hypergraph ::
  "('o, 'b) category \<Rightarrow> 'o list \<Rightarrow> 'o list \<Rightarrow> 'b list \<Rightarrow> nat list \<Rightarrow> 'o spider_types_arg
     \<Rightarrow> nat option list option \<Rightarrow> error + ('o, 'b) hypergraph" where
  "Hypergraph K dom_ty cod_ty bs ws spider_types_arg offsets_arg =
     (let ps = ports_of K dom_ty cod_ty bs in
      if length ws \<noteq> length ps then Inl ValueError
      else
        let d = types_dict ps ws spider_types_arg;
            relabeling = relabeling_of ws d
        in if \<exists>s \<in> set relabeling. dict_get d s = None then Inl KeyError
           else
             let tys = map (\<lambda>s. the (dict_get d s)) relabeling in
             if \<exists>t \<in> set tys. length t \<noteq> 1 then Inl ValueError
             else
               let h = \<lparr> domH = dom_ty, codH = cod_ty, boxes = bs,
                         wires = map (index_of relabeling) ws,
                         spider_types = map (\<lambda>t. tynorm K (hd t)) tys,
                         offsets = offsets_of bs offsets_arg \<rparr>
               in if type_check K h then Inr h else Inl AxiomError)"

subsection \<open>The pushout\<close>

text \<open>
  Modelled from the spec: \<^verbatim>\<open>pushout\<close> is imported from \<^verbatim>\<open>discopy.utils\<close>, which is
  not among the sources.  Section 4.2 of the specification: a union-find over \<open>m + n\<close>
  elements, the right universe shifted by \<open>m\<close>; \<open>left_boundary[i]\<close> is united with
  \<open>m + right_boundary[i]\<close> for each \<open>i\<close>; the class ids are then assigned in increasing
  order of first appearance when scanning \<open>0..m\<close> then \<open>m..m+n\<close>.  The two results are
  the relabelling maps of the two universes, as lists indexed by the old label.
\<close>

definition uf_union :: "nat \<times> nat \<Rightarrow> nat list \<Rightarrow> nat list" where
  "uf_union = (\<lambda>(a, b) lab. map (\<lambda>c. if c = lab ! b then lab ! a else c) lab)"

definition pushout :: "nat \<Rightarrow> nat \<Rightarrow> nat list \<Rightarrow> nat list \<Rightarrow> nat list \<times> nat list" where
  "pushout m n left_boundary right_boundary =
     (let lab = fold uf_union (zip left_boundary (map (\<lambda>j. m + j) right_boundary)) [0..<m + n];
          ids = map (index_of (sort_key (index_of lab) (remdups lab))) lab
      in (take m ids, drop m ids))"

subsection \<open>The composition algebra\<close>

text \<open>
  In the slices \<^verbatim>\<open>wires[len(wires) - len(cod):]\<close> the start is never negative: the
  constructor makes \<open>wires\<close> as long as the list of ports, of which the codomain is a part.
\<close>

definition atoms :: "'o list \<Rightarrow> 'o list list" where
  "atoms ts = map (\<lambda>t. [t]) ts"

definition idH :: "('o, 'b) category \<Rightarrow> 'o list \<Rightarrow> error + ('o, 'b) hypergraph" where
  "idH K dom_ty = Hypergraph K dom_ty dom_ty [] ([0..<length dom_ty] @ [0..<length dom_ty]) NoTypes None"

definition thenH :: "('o, 'b) category \<Rightarrow> ('o, 'b) hypergraph \<Rightarrow> ('o, 'b) hypergraph
    \<Rightarrow> error + ('o, 'b) hypergraph" where
  "thenH K self other =
     (if \<not> codH self = domH other then Inl AxiomError
      else
        let self_boundary = drop (length (wires self) - length (codH self)) (wires self);
            other_boundary = take (length (domH other)) (wires other);
            (left, right) = pushout (n_spiders self) (n_spiders other) self_boundary other_boundary;
            ws = map (\<lambda>i. left ! i) (take (length (wires self) - length (codH self)) (wires self))
                 @ map (\<lambda>i. right ! i) (drop (length (domH other)) (wires other));
            types = zip left (atoms (spider_types self)) @ zip right (atoms (spider_types other))
        in Hypergraph K (domH self) (codH other) (boxes self @ boxes other) ws (TypeMap types)
             (Some (offsets self @ offsets other)))"

definition inner_wires :: "('o, 'b) hypergraph \<Rightarrow> nat list" where
  "inner_wires h = slice (length (domH h))
     (if length (codH h) = 0 then length (wires h) else length (wires h) - length (codH h)) (wires h)"

definition tensor :: "('o, 'b) category \<Rightarrow> ('o, 'b) hypergraph \<Rightarrow> ('o, 'b) hypergraph
    \<Rightarrow> error + ('o, 'b) hypergraph" where
  "tensor K self other =
     (let shift = (\<lambda>i. n_spiders self + i);
          dom_wires = take (length (domH self)) (wires self)
                      @ map shift (take (length (domH other)) (wires other));
          box_wires = inner_wires self @ map shift (inner_wires other);
          cod_wires = drop (length (wires self) - length (codH self)) (wires self)
                      @ map shift (drop (length (wires other) - length (codH other)) (wires other))
      in Hypergraph K (domH self @ domH other) (codH self @ codH other) (boxes self @ boxes other)
           (dom_wires @ box_wires @ cod_wires)
           (TypeSeq (atoms (spider_types self @ spider_types other)))
           (Some (offsets self @ offsets other)))"

definition dagger :: "('o, 'b) category \<Rightarrow> ('o, 'b) hypergraph \<Rightarrow> error + ('o, 'b) hypergraph" where
  "dagger K h =
     (let dom_wires = drop (length (wires h) - length (codH h)) (wires h);
          box_wires = concat (map (\<lambda>(dom_wires, cod_wires). cod_wires @ dom_wires) (rev (box_wires K h)));
          cod_wires = take (length (domH h)) (wires h)
      in Hypergraph K (codH h) (domH h) (map (bdagger K) (rev (boxes h)))
           (dom_wires @ box_wires @ cod_wires) (TypeSeq (atoms (spider_types h)))
           (Some (rev (offsets h))))"

text \<open>\<^verbatim>\<open>__getitem__\<close>: the key is the full reversal \<^verbatim>\<open>[::-1]\<close> or anything else.\<close>

datatype key = Reversal | OtherKey

definition getitem :: "('o, 'b) category \<Rightarrow> ('o, 'b) hypergraph \<Rightarrow> key \<Rightarrow> error + ('o, 'b) hypergraph" where
  "getitem K h k = (case k of Reversal \<Rightarrow> dagger K h | OtherKey \<Rightarrow> Inl NotImplementedError)"

definition swapH :: "('o, 'b) category \<Rightarrow> 'o list \<Rightarrow> 'o list \<Rightarrow> error + ('o, 'b) hypergraph" where
  "swapH K left right =
     (let dom_ty = left @ right; cod_ty = right @ left;
          ws = [0..<length dom_ty] @ [length left..<length dom_ty] @ [0..<length left]
      in Hypergraph K dom_ty cod_ty [] ws NoTypes None)"

definition spiders :: "('o, 'b) category \<Rightarrow> nat \<Rightarrow> nat \<Rightarrow> 'o list \<Rightarrow> error + ('o, 'b) hypergraph" where
  "spiders K n_legs_in n_legs_out typ =
     Hypergraph K (concat (replicate n_legs_in typ)) (concat (replicate n_legs_out typ)) []
       (concat (replicate (n_legs_in + n_legs_out) [0..<length typ])) (TypeSeq (atoms typ)) None"

definition from_box :: "('o, 'b) category \<Rightarrow> 'b \<Rightarrow> error + ('o, 'b) hypergraph" where
  "from_box K box =
     (let ws = [0..<length (bdom K box)] @ [0..<length (bdom K box)]
               @ [length (bdom K box)..<length (bdom K box @ bcod K box)]
               @ [length (bdom K box)..<length (bdom K box @ bcod K box)]
      in Hypergraph K (bdom K box) (bcod K box) [box] ws (TypeSeq (atoms (bdom K box @ bcod K box))) None)"

subsection \<open>Classification predicates and the bijection\<close>

definition is_bijective :: "('o, 'b) hypergraph \<Rightarrow> bool" where
  "is_bijective h = list_all (\<lambda>i. count_list (wires h) i \<in> set [0, 2]) [0..<n_spiders h]"

fun monogamous_loop :: "(nat set \<times> nat set) list \<Rightarrow> bool" where
  "monogamous_loop [] = True"
| "monogamous_loop ((input_wires, output_wires) # rest) =
     (if card input_wires \<noteq> card output_wires then False
      else if card input_wires + card output_wires \<notin> set [0, 2] then False
      else monogamous_loop rest)"

definition is_monogamous :: "('o, 'b) category \<Rightarrow> ('o, 'b) hypergraph \<Rightarrow> bool" where
  "is_monogamous K h = monogamous_loop (spider_wires K h)"

definition bijection_step :: "nat list \<Rightarrow> nat \<times> nat \<Rightarrow> (nat, nat) dict \<Rightarrow> (nat, nat) dict" where
  "bijection_step ws = (\<lambda>(source, spider) result.
     if spider \<in> set (drop (source + 1) ws)
     then let target = index_of (drop (source + 1) ws) spider + source + 1
          in result @ [(source, target), (target, source)]
     else result)"

definition bijection :: "('o, 'b) hypergraph \<Rightarrow> error + nat list" where
  "bijection h =
     (if \<not> is_bijective h then Inl ValueError
      else
        let result = fold (bijection_step (wires h)) (enumerate 0 (wires h)) []
        in Inr (map (\<lambda>source. the (dict_get result source)) (sort (dict_keys result))))"

subsection \<open>The normalisation pass \<^verbatim>\<open>make_bijective\<close>\<close>

text \<open>
  The pass iterates over the union of two Python sets, whose order is not that of the
  integers in general.  The order is the parameter \<open>iter\<close>: it lists the elements of a
  finite set.
\<close>

definition bijective_rewrite ::
  "('o, 'b) category \<Rightarrow> (nat set \<Rightarrow> nat list) \<Rightarrow> ('o, 'b) hypergraph \<Rightarrow> nat \<Rightarrow> error + ('o, 'b) hypergraph" where
  "bijective_rewrite K iter h spider =
     (let typ = spider_types h ! spider;
          (input_wires, output_wires) = spider_wires K h ! spider;
          n_legs = card input_wires + card output_wires;
          depth = (if input_wires \<noteq> {}
                   then let node = ports K h ! Max input_wires
                        in if kind node = Input then 0 else the (depth node) + 1
                   else let node = ports K h ! Min output_wires
                        in if kind node = Output then length (boxes h) else the (depth node));
          bs = take depth (boxes h)
               @ [spider_factory K (card input_wires) (card output_wires) typ]
               @ drop depth (boxes h);
          offs = take depth (offsets h) @ [None] @ drop depth (offsets h);
          ws = fold (\<lambda>(j, port) ws. ws[port := length (spider_types h) + j])
                 (enumerate 0 (iter (input_wires \<union> output_wires))) (wires h);
          i = length (domH h)
              + length (concat (map (\<lambda>(dom_wires, cod_wires). dom_wires @ cod_wires)
                                  (take depth (box_wires K h))));
          ws = take i ws @ [length (spider_types h)..<length (spider_types h) + n_legs] @ drop i ws;
          types = spider_types h @ replicate n_legs typ;
          types = take spider types @ drop (Suc spider) types;
          ws = map (\<lambda>w. if w > spider then w - 1 else w) ws
      in Hypergraph K (domH h) (codH h) bs ws (TypeSeq (atoms types)) (Some offs))"

definition first_violation :: "('o, 'b) category \<Rightarrow> ('o, 'b) hypergraph \<Rightarrow> nat option" where
  "first_violation K h =
     map_option fst
       (find (\<lambda>(spider, typ, input_wires, output_wires).
                 card input_wires + card output_wires \<notin> set [0, 2])
          (rev (enumerate 0 (zip (spider_types h) (spider_wires K h)))))"

partial_function (option) make_bijective ::
  "('o, 'b) category \<Rightarrow> (nat set \<Rightarrow> nat list) \<Rightarrow> ('o, 'b) hypergraph
     \<Rightarrow> (error + ('o, 'b) hypergraph) option" where
  "make_bijective K iter h =
     (case first_violation K h of
        None \<Rightarrow> Some (Inr h)
      | Some spider \<Rightarrow>
          (case bijective_rewrite K iter h spider of
             Inl e \<Rightarrow> Some (Inl e)
           | Inr h' \<Rightarrow> make_bijective K iter h'))"

subsection \<open>Two instances of the type and box layer\<close>

text \<open>
  Modelled from the spec: the type and box classes are not part of \<^verbatim>\<open>hypergraph.py\<close>.
  Section 6 of the specification asks of a box a domain, a codomain and a dagger, and of
  the box class a spider factory; \<open>SpiderBox n m t\<close> is the box the factory returns,
  with domain \<open>t ** n\<close> and codomain \<open>t ** m\<close>.  In \<open>frobenius\<close> an atomic type is its
  name and is its own adjoint.  In \<open>pivotal\<close> an atomic type is a name with the
  orientation flag \<open>z\<close>, which the adjoint flips.
\<close>

datatype 'o box =
  Box (name: string) (box_dom: "'o list") (box_cod: "'o list") (is_dagger: bool)
| SpiderBox nat nat 'o

fun dom_of_box :: "'o box \<Rightarrow> 'o list" where
  "dom_of_box (Box n d c dg) = d"
| "dom_of_box (SpiderBox n m t) = replicate n t"

fun cod_of_box :: "'o box \<Rightarrow> 'o list" where
  "cod_of_box (Box n d c dg) = c"
| "cod_of_box (SpiderBox n m t) = replicate m t"

fun dagger_of_box :: "'o box \<Rightarrow> 'o box" where
  "dagger_of_box (Box n d c dg) = Box n c d (\<not> dg)"
| "dagger_of_box (SpiderBox n m t) = SpiderBox m n t"

definition frobenius :: "(string, string box) category" where
  "frobenius = \<lparr> zflag = (\<lambda>t. False), radj = (\<lambda>t. t), bdom = dom_of_box, bcod = cod_of_box,
                 bdagger = dagger_of_box, spider_factory = SpiderBox \<rparr>"

definition pivotal :: "(string \<times> bool, (string \<times> bool) box) category" where
  "pivotal = \<lparr> zflag = snd, radj = (\<lambda>(n, z). (n, \<not> z)), bdom = dom_of_box, bcod = cod_of_box,
               bdagger = dagger_of_box, spider_factory = SpiderBox \<rparr>"

subsection \<open>Ports by kind and by type\<close>

text \<open>
  The kinds and the types of the ports in port order, and the ports of a spider among the
  first \<open>m\<close> ports, split as \<^verbatim>\<open>spider_wires\<close> splits them.  They are proved below to
  describe \<^verbatim>\<open>ports\<close> and \<^verbatim>\<open>spider_wires\<close>.
\<close>

definition box_kinds :: "('o, 'b) category \<Rightarrow> 'b \<Rightarrow> kind list" where
  "box_kinds K b = replicate (length (bdom K b)) Dom @ replicate (length (bcod K b)) Cod"

definition port_kinds :: "('o, 'b) category \<Rightarrow> 'o list \<Rightarrow> 'o list \<Rightarrow> 'b list \<Rightarrow> kind list" where
  "port_kinds K dom_ty cod_ty bs =
     replicate (length dom_ty) Input @ concat (map (box_kinds K) bs) @ replicate (length cod_ty) Output"

definition port_objs :: "('o, 'b) category \<Rightarrow> 'o list \<Rightarrow> 'o list \<Rightarrow> 'b list \<Rightarrow> 'o list" where
  "port_objs K dom_ty cod_ty bs = dom_ty @ concat (map (\<lambda>b. bdom K b @ bcod K b) bs) @ cod_ty"

definition is_sink :: "kind \<Rightarrow> bool" where
  "is_sink k = (k = Dom \<or> k = Output)"

definition acc :: "nat list \<Rightarrow> kind list \<Rightarrow> nat \<Rightarrow> nat \<Rightarrow> nat set \<times> nat set" where
  "acc W P m s = ({p. p < m \<and> W ! p = s \<and> \<not> is_sink (P ! p)}, {p. p < m \<and> W ! p = s \<and> is_sink (P ! p)})"

subsection \<open>First occurrences\<close>

text \<open>
  The list of the distinct elements of a list in the order of their first occurrence; it is
  proved below to be the value of \<^verbatim>\<open>sorted(set(wires), key=wires.index)\<close>.
\<close>

fun uniq :: "'a list \<Rightarrow> 'a list" where
  "uniq [] = []"
| "uniq (x # xs) = x # removeAll x (uniq xs)"

subsection \<open>The constructor in closed form\<close>

text \<open>
  The value the constructor returns and the condition under which it returns one, both
  in terms of the labels given; \<open>Hypergraph_eq_Inr\<close> proves them to describe the
  constructor.
\<close>

definition built :: "('o, 'b) category \<Rightarrow> 'o list \<Rightarrow> 'o list \<Rightarrow> 'b list \<Rightarrow> nat list
    \<Rightarrow> (nat, 'o list) dict \<Rightarrow> nat option list option \<Rightarrow> ('o, 'b) hypergraph" where
  "built K dom_ty cod_ty bs ws d offsets_arg =
     \<lparr> domH = dom_ty, codH = cod_ty, boxes = bs,
       wires = map (index_of (uniq ws)) ws,
       spider_types = map (\<lambda>s. tynorm K (hd (the (dict_get d s)))) (relabeling_of ws d),
       offsets = offsets_of bs offsets_arg \<rparr>"

definition accepts :: "('o, 'b) category \<Rightarrow> 'o list \<Rightarrow> 'o list \<Rightarrow> 'b list \<Rightarrow> nat list
    \<Rightarrow> (nat, 'o list) dict \<Rightarrow> bool" where
  "accepts K dom_ty cod_ty bs ws d \<longleftrightarrow>
     length ws = length (port_objs K dom_ty cod_ty bs)
     \<and> set ws \<subseteq> fst ` set d
     \<and> (\<forall>s\<in>fst ` set d. length (the (dict_get d s)) = 1)
     \<and> (\<forall>p<length ws. port_objs K dom_ty cod_ty bs ! p = tynorm K (hd (the (dict_get d (ws ! p))))
           \<or> port_objs K dom_ty cod_ty bs ! p = radj K (tynorm K (hd (the (dict_get d (ws ! p))))))"

text \<open>A value is a hypergraph when the constructor has returned it.\<close>

definition is_hypergraph :: "('o, 'b) category \<Rightarrow> ('o, 'b) hypergraph \<Rightarrow> bool" where
  "is_hypergraph K h \<longleftrightarrow> (\<exists>dom_ty cod_ty bs ws st off. Hypergraph K dom_ty cod_ty bs ws st off = Inr h)"

subsection \<open>Canonical labels\<close>

text \<open>The labels of a list are canonical when their first occurrences are \<open>0, 1, 2, \<dots>\<close> in this order.\<close>

definition canonical :: "nat list \<Rightarrow> bool" where
  "canonical ws \<longleftrightarrow> uniq ws = [0..<length (uniq ws)]"

subsection \<open>Example values\<close>

definition box_f :: "string box" where
  "box_f = Box ''f'' [''x''] [''y''] False"

definition box_g :: "string box" where
  "box_g = Box ''g'' [''y''] [''z''] False"

definition hyp_f :: "(string, string box) hypergraph" where
  "hyp_f = \<lparr> domH = [''x''], codH = [''y''], boxes = [box_f], wires = [0, 0, 1, 1],
             spider_types = [''x'', ''y''], offsets = [None] \<rparr>"

definition hyp_g :: "(string, string box) hypergraph" where
  "hyp_g = \<lparr> domH = [''y''], codH = [''z''], boxes = [box_g], wires = [0, 0, 1, 1],
             spider_types = [''y'', ''z''], offsets = [None] \<rparr>"

text \<open>
  The argument \<open>st\<close> of the constructor declares the types \<open>ts\<close> for the labels
  \<open>0, \<dots>, length ts - 1\<close>, as a sequence or as a mapping.
\<close>

definition declares :: "'o spider_types_arg \<Rightarrow> 'o list \<Rightarrow> bool" where
  "declares st ts \<longleftrightarrow>
     (case st of
        NoTypes \<Rightarrow> False
      | TypeSeq l \<Rightarrow> l = atoms ts
      | TypeMap m \<Rightarrow> set (map fst m) = {0..<length ts} \<and> map (dict_get m) [0..<length ts] = map Some (atoms ts))"

subsection \<open>The invariant of hypergraph values\<close>

text \<open>
  What the surrounding type layer is asked for: the adjoint of a type with the \<open>z\<close> flag
  has no flag and its adjoint is the type again; the normalisation of the adjoint of a
  type without flag is the type again.  Self-dual types without flags and pivotal types
  both qualify.
\<close>

definition adjoints_ok :: "('o, 'b) category \<Rightarrow> bool" where
  "adjoints_ok K \<longleftrightarrow>
     (\<forall>t. zflag K t \<longrightarrow> \<not> zflag K (radj K t) \<and> radj K (radj K t) = t)
     \<and> (\<forall>t. \<not> zflag K t \<longrightarrow> tynorm K (radj K t) = t)"

text \<open>A port of type \<open>ob\<close> may be wired to the spider \<open>w\<close> of the spider types \<open>ts\<close>.\<close>

definition port_ok :: "('o, 'b) category \<Rightarrow> 'o list \<Rightarrow> 'o \<Rightarrow> nat \<Rightarrow> bool" where
  "port_ok K ts ob w \<longleftrightarrow> w < length ts \<and> (ob = ts ! w \<or> ob = radj K (ts ! w))"

definition wf :: "('o, 'b) category \<Rightarrow> ('o, 'b) hypergraph \<Rightarrow> bool" where
  "wf K h \<longleftrightarrow>
     list_all2 (port_ok K (spider_types h)) (port_objs K (domH h) (codH h) (boxes h)) (wires h)
     \<and> canonical (wires h)
     \<and> (\<forall>t\<in>set (spider_types h). \<exists>u. t = tynorm K u)
     \<and> (offsets h = [] \<longrightarrow> boxes h = [])"

definition box_objs :: "('o, 'b) category \<Rightarrow> 'b list \<Rightarrow> 'o list" where
  "box_objs K bs = concat (map (\<lambda>b. bdom K b @ bcod K b) bs)"

definition box_f2 :: "string box" where
  "box_f2 = Box ''f'' [''x''] [''y'', ''y''] False"

definition box_g2 :: "string box" where
  "box_g2 = Box ''g'' [''y'', ''y''] [''z''] False"

definition hyp_f2 :: "(string, string box) hypergraph" where
  "hyp_f2 = \<lparr> domH = [''x''], codH = [''y'', ''y''], boxes = [box_f2], wires = [0, 0, 1, 2, 1, 2],
              spider_types = [''x'', ''y'', ''y''], offsets = [None] \<rparr>"

definition hyp_g2 :: "(string, string box) hypergraph" where
  "hyp_g2 = \<lparr> domH = [''y'', ''y''], codH = [''z''], boxes = [box_g2], wires = [0, 1, 0, 1, 2, 2],
              spider_types = [''y'', ''y'', ''z''], offsets = [None] \<rparr>"

definition hyp_f_tensor_g :: "(string, string box) hypergraph" where
  "hyp_f_tensor_g = \<lparr> domH = [''x'', ''y''], codH = [''y'', ''z''], boxes = [box_f, box_g],
              wires = [0, 1, 0, 2, 1, 3, 2, 3],
              spider_types = [''x'', ''y'', ''y'', ''z''], offsets = [None, None] \<rparr>"

definition hyp_f2_tensor_g2 :: "(string, string box) hypergraph" where
  "hyp_f2_tensor_g2 = \<lparr> domH = [''x'', ''y'', ''y''], codH = [''y'', ''y'', ''z''], boxes = [box_f2, box_g2],
              wires = [0, 1, 2, 0, 3, 4, 1, 2, 5, 3, 4, 5],
              spider_types = [''x'', ''y'', ''y'', ''y'', ''y'', ''z''], offsets = [None, None] \<rparr>"

subsection \<open>Source and sink ports of a spider\<close>

text \<open>
  The ports of a spider in the words of the specification: its source ports are the
  inputs of the diagram and the codomain ports of boxes wired to it, its sink ports the
  domain ports of boxes and the outputs of the diagram wired to it.
\<close>

definition source_ports :: "('o, 'b) category \<Rightarrow> ('o, 'b) hypergraph \<Rightarrow> nat \<Rightarrow> nat set" where
  "source_ports K h s =
     {p. p < length (ports K h) \<and> wires h ! p = s \<and> (kind (ports K h ! p) = Input \<or> kind (ports K h ! p) = Cod)}"

definition sink_ports :: "('o, 'b) category \<Rightarrow> ('o, 'b) hypergraph \<Rightarrow> nat \<Rightarrow> nat set" where
  "sink_ports K h s =
     {p. p < length (ports K h) \<and> wires h ! p = s \<and> (kind (ports K h ! p) = Dom \<or> kind (ports K h ! p) = Output)}"

subsection \<open>Partners of ports\<close>

text \<open>
  The port \<open>i\<close> has a later port on the same spider, and the first such port: the test
  and the \<^verbatim>\<open>target\<close> of the loop of \<^verbatim>\<open>bijection\<close>.
\<close>

definition later :: "nat list \<Rightarrow> nat \<Rightarrow> bool" where
  "later W i \<longleftrightarrow> W ! i \<in> set (drop (Suc i) W)"

definition target :: "nat list \<Rightarrow> nat \<Rightarrow> nat" where
  "target W i = index_of (drop (Suc i) W) (W ! i) + i + 1"

definition partner :: "nat list \<Rightarrow> nat \<Rightarrow> nat" where
  "partner W i = (if later W i then target W i else index_of W (W ! i))"

definition pairs :: "nat list \<Rightarrow> (nat, nat) dict" where
  "pairs W = concat (map (\<lambda>i. if later W i then [(i, target W i), (target W i, i)] else []) [0..<length W])"

text \<open>The segments \<open>segs\<close> have the lengths of the domains and codomains of the boxes \<open>bs\<close>.\<close>

definition shaped :: "('o, 'b) category \<Rightarrow> 'b list \<Rightarrow> (nat list \<times> nat list) list \<Rightarrow> bool" where
  "shaped K bs segs \<longleftrightarrow>
     list_all2 (\<lambda>b (d, c). length d = length (bdom K b) \<and> length c = length (bcod K b)) bs segs"

definition flat :: "(nat list \<times> nat list) list \<Rightarrow> nat list" where
  "flat segs = concat (map (\<lambda>(d, c). d @ c) segs)"

subsection \<open>Structural equality\<close>

text \<open>
  \<^verbatim>\<open>to_graph\<close> builds a directed graph of the graph library: its nodes are the values
  \<^verbatim>\<open>Node(kind, ...)\<close>, each with a dictionary of attributes, and its edges are pairs of
  nodes.  Adding a node that is present updates its attributes; adding an edge adds its
  two nodes, without attributes, when they are absent.
\<close>

datatype ('o, 'b) gnode =
  SpiderNode nat 'o
| InputNode nat 'o
| OutputNode nat 'o
| BoxNode 'b nat
| PortNode kind nat nat

datatype 'b attr = IntAttr nat | BoxAttr "'b option"

record ('o, 'b) graph =
  gnodes :: "('o, 'b) gnode \<rightharpoonup> (string \<rightharpoonup> 'b attr)"
  gedges :: "(('o, 'b) gnode \<times> ('o, 'b) gnode) set"

definition add_node :: "('o, 'b) gnode \<Rightarrow> (string \<rightharpoonup> 'b attr) \<Rightarrow> ('o, 'b) graph \<Rightarrow> ('o, 'b) graph" where
  "add_node n a G =
     G\<lparr>gnodes := (gnodes G)(n \<mapsto> (case gnodes G n of None \<Rightarrow> a | Some a' \<Rightarrow> a' ++ a))\<rparr>"

definition add_edge :: "('o, 'b) gnode \<Rightarrow> ('o, 'b) gnode \<Rightarrow> ('o, 'b) graph \<Rightarrow> ('o, 'b) graph" where
  "add_edge u v G =
     (let G' = add_node v Map.empty (add_node u Map.empty G)
      in G'\<lparr>gedges := insert (u, v) (gedges G')\<rparr>)"

definition add_box_ports ::
  "('o, 'b) hypergraph \<Rightarrow> ('o, 'b) gnode \<Rightarrow> nat \<Rightarrow> kind \<Rightarrow> nat list \<Rightarrow> ('o, 'b) graph \<Rightarrow> ('o, 'b) graph" where
  "add_box_ports h box_node i which ws G =
     fold (\<lambda>(j, spider) G.
        let spider_node = SpiderNode spider (spider_types h ! spider);
            port_node = PortNode which i j;
            G = add_node port_node [''j'' \<mapsto> IntAttr j, ''box'' \<mapsto> BoxAttr None] G
        in if which = Dom
           then add_edge port_node box_node (add_edge spider_node port_node G)
           else add_edge port_node spider_node (add_edge box_node port_node G))
       (enumerate 0 ws) G"

definition to_graph :: "('o, 'b) category \<Rightarrow> ('o, 'b) hypergraph \<Rightarrow> ('o, 'b) graph" where
  "to_graph K h =
     (let G = \<lparr>gnodes = Map.empty, gedges = {}\<rparr>;
          G = fold (\<lambda>(i, ob). add_node (SpiderNode i ob) Map.empty) (enumerate 0 (spider_types h)) G;
          G = fold (\<lambda>(i, ob). add_node (InputNode i ob) [''i'' \<mapsto> IntAttr i]) (enumerate 0 (domH h)) G;
          G = fold (\<lambda>(i, j, ob). add_edge (InputNode i ob) (SpiderNode j ob))
                (enumerate 0 (zip (take (length (domH h)) (wires h)) (domH h))) G;
          G = fold (\<lambda>(i, box, dom_wires, cod_wires) G.
                  let box_node = BoxNode box i;
                      G = add_node box_node [''box'' \<mapsto> BoxAttr (Some box)] G;
                      G = add_box_ports h box_node i Dom dom_wires G
                  in add_box_ports h box_node i Cod cod_wires G)
                (enumerate 0 (zip (boxes h) (box_wires K h))) G;
          G = fold (\<lambda>(i, ob). add_node (OutputNode i ob) [''i'' \<mapsto> IntAttr i]) (enumerate 0 (codH h)) G
      in fold (\<lambda>(i, j, ob). add_edge (SpiderNode j ob) (OutputNode i ob))
           (enumerate 0 (zip (drop (length (wires h) - length (codH h)) (wires h)) (codH h))) G)"

text \<open>
  \<^verbatim>\<open>is_isomorphic(G1, G2, node_match)\<close> of the graph library, with the \<^verbatim>\<open>node_match\<close>
  of \<^verbatim>\<open>__eq__\<close>, equality of the attribute dictionaries: there is a bijection between
  the nodes that keeps the edges and the attributes.
\<close>

definition is_isomorphic :: "('o, 'b) graph \<Rightarrow> ('o, 'b) graph \<Rightarrow> bool" where
  "is_isomorphic G1 G2 \<longleftrightarrow>
     (\<exists>f. bij_betw f (dom (gnodes G1)) (dom (gnodes G2))
         \<and> (\<forall>u\<in>dom (gnodes G1). \<forall>v\<in>dom (gnodes G1).
               (u, v) \<in> gedges G1 \<longleftrightarrow> (f u, f v) \<in> gedges G2)
         \<and> (\<forall>u\<in>dom (gnodes G1). gnodes G1 u = gnodes G2 (f u)))"

text \<open>\<^verbatim>\<open>__eq__\<close>; \<^verbatim>\<open>is_parallel\<close> compares the domains and the codomains.\<close>

definition is_parallel :: "('o, 'b) hypergraph \<Rightarrow> ('o, 'b) hypergraph \<Rightarrow> bool" where
  "is_parallel self other \<longleftrightarrow> domH self = domH other \<and> codH self = codH other"

definition hypergraph_eq :: "('o, 'b) category \<Rightarrow> ('o, 'b) hypergraph \<Rightarrow> ('o, 'b) hypergraph \<Rightarrow> bool" where
  "hypergraph_eq K self other \<longleftrightarrow>
     is_parallel self other \<and> is_isomorphic (to_graph K self) (to_graph K other)"

text \<open>What the surrounding box layer is asked for: the dagger of a box swaps its domain and
  codomain, and the dagger of the dagger is the box.\<close>

definition daggers_ok :: "('o, 'b) category \<Rightarrow> bool" where
  "daggers_ok K \<longleftrightarrow>
     (\<forall>b. bdom K (bdagger K b) = bcod K b \<and> bcod K (bdagger K b) = bdom K b
          \<and> bdagger K (bdagger K b) = b)"

text \<open>The wires that \<^verbatim>\<open>dagger\<close> hands to the constructor.\<close>

definition dagger_wires :: "('o, 'b) category \<Rightarrow> ('o, 'b) hypergraph \<Rightarrow> nat list" where
  "dagger_wires K h =
     drop (length (wires h) - length (codH h)) (wires h)
     @ flat (map prod.swap (rev (box_wires K h)))
     @ take (length (domH h)) (wires h)"

definition hyp_f_dagger :: "(string, string box) hypergraph" where
  "hyp_f_dagger = \<lparr> domH = [''y''], codH = [''x''], boxes = [Box ''f'' [''y''] [''x''] True],
              wires = [0, 0, 1, 1], spider_types = [''y'', ''x''], offsets = [None] \<rparr>"

subsection \<open>Classes of the pushout\<close>

text \<open>The class ids of the labels of a union-find, in the order of first appearance.\<close>

definition class_ids :: "nat list \<Rightarrow> nat list" where
  "class_ids lab = map (index_of (uniq lab)) lab"

definition glued :: "nat \<Rightarrow> nat \<Rightarrow> nat list \<Rightarrow> nat list \<Rightarrow> nat list" where
  "glued m n left_boundary right_boundary =
     class_ids (fold uf_union (zip left_boundary (map (\<lambda>j. m + j) right_boundary)) [0..<m + n])"

text \<open>
  The labels that \<^verbatim>\<open>then\<close> hands to the pushout maps, the spiders of \<open>other\<close> shifted
  by the number of spiders of \<open>self\<close>, and the class ids of the pushout.
\<close>

definition hyp_f_then_g :: "(string, string box) hypergraph" where
  "hyp_f_then_g = \<lparr> domH = [''x''], codH = [''z''], boxes = [box_f, box_g],
              wires = [0, 0, 1, 1, 2, 2], spider_types = [''x'', ''y'', ''z''], offsets = [None, None] \<rparr>"

definition then_wires :: "('o, 'b) hypergraph \<Rightarrow> ('o, 'b) hypergraph \<Rightarrow> nat list" where
  "then_wires f g =
     take (length (wires f) - length (codH f)) (wires f)
     @ map (\<lambda>j. n_spiders f + j) (drop (length (domH g)) (wires g))"

definition then_ids :: "('o, 'b) hypergraph \<Rightarrow> ('o, 'b) hypergraph \<Rightarrow> nat list" where
  "then_ids f g =
     glued (n_spiders f) (n_spiders g)
       (drop (length (wires f) - length (codH f)) (wires f)) (take (length (domH g)) (wires g))"

text \<open>The hypergraph \<^verbatim>\<open>spiders(1, 2, x)\<close>.\<close>

definition hyp_copy :: "(string, string box) hypergraph" where
  "hyp_copy = \<lparr> domH = [''x''], codH = [''x'', ''x''], boxes = [], wires = [0, 0, 0],
                spider_types = [''x''], offsets = [] \<rparr>"

subsection \<open>The identity\<close>

text \<open>The value of \<^verbatim>\<open>id\<close>; \<open>id_built\<close> proves \<^verbatim>\<open>id\<close> to return it.\<close>

definition identity :: "('o, 'b) category \<Rightarrow> 'o list \<Rightarrow> ('o, 'b) hypergraph" where
  "identity K t = \<lparr> domH = t, codH = t, boxes = [],
                     wires = [0..<length t] @ [0..<length t],
                     spider_types = map (tynorm K) t, offsets = [] \<rparr>"

subsection \<open>The spiders that \<^verbatim>\<open>make_bijective\<close> rewrites\<close>

text \<open>What the surrounding box layer is asked for: the spider box with \<open>a\<close> inputs and
  \<open>b\<close> outputs of type \<open>t\<close> has the domain \<open>t ** a\<close> and the codomain \<open>t ** b\<close>.\<close>

definition spiders_ok :: "('o, 'b) category \<Rightarrow> bool" where
  "spiders_ok K \<longleftrightarrow>
     (\<forall>a b t. bdom K (spider_factory K a b t) = replicate a t
            \<and> bcod K (spider_factory K a b t) = replicate b t)"

text \<open>An order of iteration lists every finite set without repetition.\<close>

definition lists_sets :: "(nat set \<Rightarrow> nat list) \<Rightarrow> bool" where
  "lists_sets iter \<longleftrightarrow> (\<forall>S. finite S \<longrightarrow> set (iter S) = S \<and> distinct (iter S))"

text \<open>The labels that occur in a list of wires, but not twice.\<close>

definition violations :: "nat list \<Rightarrow> nat set" where
  "violations ws = {c \<in> set ws. count_list ws c \<noteq> 2}"

text \<open>The hypergraph \<^verbatim>\<open>spiders(3, 2, x)\<close> and what \<^verbatim>\<open>make_bijective\<close> returns for it.\<close>

definition hyp_spider32 :: "(string, string box) hypergraph" where
  "hyp_spider32 = \<lparr> domH = [''x'', ''x'', ''x''], codH = [''x'', ''x''], boxes = [],
              wires = [0, 0, 0, 0, 0], spider_types = [''x''], offsets = [] \<rparr>"

definition hyp_spider32_bijective :: "(string, string box) hypergraph" where
  "hyp_spider32_bijective = \<lparr> domH = [''x'', ''x'', ''x''], codH = [''x'', ''x''],
              boxes = [SpiderBox 3 2 ''x''], wires = [0, 1, 2, 0, 1, 2, 3, 4, 3, 4],
              spider_types = [''x'', ''x'', ''x'', ''x'', ''x''], offsets = [None] \<rparr>"

section \<open>Facts on lists\<close>

lemma set_uniq [simp]: "set (uniq xs) = set xs"
  by (induction xs) auto

lemma distinct_uniq [simp]: "distinct (uniq xs)"
  by (induction xs) (auto simp: distinct_removeAll)

lemma index_of_less: "x \<in> set xs \<Longrightarrow> index_of xs x < length xs"
  by (induction xs) auto

lemma index_of_less_iff: "index_of xs x < length xs \<longleftrightarrow> x \<in> set xs"
  by (induction xs) auto

lemma nth_index_of [simp]: "x \<in> set xs \<Longrightarrow> xs ! index_of xs x = x"
  by (induction xs) auto

lemma index_of_nth [simp]: "distinct xs \<Longrightarrow> i < length xs \<Longrightarrow> index_of xs (xs ! i) = i"
proof (induction xs arbitrary: i)
  case Nil then show ?case by simp
next
  case (Cons y ys)
  then show ?case by (cases i) auto
qed

lemma index_of_append_left: "x \<in> set xs \<Longrightarrow> index_of (xs @ ys) x = index_of xs x"
  by (induction xs) auto

lemma index_of_append_right: "x \<notin> set xs \<Longrightarrow> index_of (xs @ ys) x = length xs + index_of ys x"
  by (induction xs) auto

lemma inj_on_index_of: "inj_on (index_of xs) (set xs)"
  by (rule inj_on_inverseI [where g = "\<lambda>i. xs ! i"]) simp

lemma index_of_upt [simp]: "i < n \<Longrightarrow> index_of [0..<n] i = i"
  using index_of_nth [of "[0..<n]" i] by simp

lemma map_index_of_self: "distinct xs \<Longrightarrow> map (index_of xs) xs = [0..<length xs]"
  by (rule nth_equalityI) auto

lemma filter_eq_singleton: "distinct xs \<Longrightarrow> k \<in> set xs \<Longrightarrow> filter (\<lambda>x. x = k) xs = [k]"
  by (induction xs) (auto simp: filter_empty_conv)

lemma sorted_index_uniq: "sorted (map (index_of ws) (uniq ws))"
proof (induction ws)
  case Nil then show ?case by simp
next
  case (Cons x xs)
  have "map (index_of (x # xs)) (removeAll x (uniq xs)) = map (\<lambda>y. Suc (index_of xs y)) (removeAll x (uniq xs))"
    by (rule map_cong) auto
  also have "\<dots> = map Suc (map (index_of xs) (filter (\<lambda>y. y \<noteq> x) (uniq xs)))"
    by (simp add: removeAll_filter_not_eq o_def neq_commute) 
  finally have eq: "map (index_of (x # xs)) (removeAll x (uniq xs)) = map Suc (map (index_of xs) (filter (\<lambda>y. y \<noteq> x) (uniq xs)))" .
  have "sorted (map (index_of xs) (filter (\<lambda>y. y \<noteq> x) (uniq xs)))"
    using Cons.IH by (rule sorted_filter)
  then have "sorted (map Suc (map (index_of xs) (filter (\<lambda>y. y \<noteq> x) (uniq xs))))"
    by (simp add: sorted_map o_def) 
  then have s: "sorted (map (index_of (x # xs)) (removeAll x (uniq xs)))"
    unfolding eq .
  have "index_of (x # xs) x = 0" by simp
  then show ?case using s by (simp del: index_of.simps)
qed

lemma first_occurrences: "sort_key (index_of ws) (remdups ws) = uniq ws"
proof (rule properties_for_sort_key)
  show "mset (uniq ws) = mset (remdups ws)"
    by (simp add: set_eq_iff_mset_eq_distinct [symmetric])
  show "sorted (map (index_of ws) (uniq ws))" by (rule sorted_index_uniq)
next
  fix k assume k: "k \<in> set (uniq ws)"
  have inj: "\<And>x. x \<in> set ws \<Longrightarrow> index_of ws k = index_of ws x \<longleftrightarrow> x = k"
    using k inj_on_index_of [of ws] by (auto simp: inj_on_def)
  have "filter (\<lambda>x. index_of ws k = index_of ws x) (uniq ws) = filter (\<lambda>x. x = k) (uniq ws)"
    by (rule filter_cong) (auto simp: inj)
  moreover have "filter (\<lambda>x. index_of ws k = index_of ws x) (remdups ws) = filter (\<lambda>x. x = k) (remdups ws)"
    by (rule filter_cong) (auto simp: inj)
  moreover have "filter (\<lambda>x. x = k) (uniq ws) = [k]" "filter (\<lambda>x. x = k) (remdups ws) = [k]"
    using k by (simp_all add: filter_eq_singleton)
  ultimately show "filter (\<lambda>x. index_of ws k = index_of ws x) (uniq ws) = filter (\<lambda>x. index_of ws k = index_of ws x) (remdups ws)"
    by simp
qed

section \<open>Ports and spider wires\<close>

lemma map_kind_nodes_of [simp]: "map kind (nodes_of k d t) = replicate (length t) k"
  by (auto simp: nodes_of_def intro!: nth_equalityI simp: nth_enumerate_eq)

lemma map_obj_nodes_of [simp]: "map obj (nodes_of k d t) = t"
  by (auto simp: nodes_of_def intro!: nth_equalityI simp: nth_enumerate_eq)

lemma length_nodes_of [simp]: "length (nodes_of k d t) = length t"
  by (simp add: nodes_of_def)

lemma map_enumerate_snd: "map (\<lambda>(d, b). g b) (enumerate k bs) = map g bs"
  by (induction bs arbitrary: k) auto

lemma map_kind_ports_of: "map kind (ports_of K dm cd bs) = port_kinds K dm cd bs"
proof -
  have "map (map kind) (map (\<lambda>(d, box). nodes_of Dom (Some d) (bdom K box) @ nodes_of Cod (Some d) (bcod K box)) (enumerate 0 bs))
      = map (\<lambda>(d, b). box_kinds K b) (enumerate 0 bs)"
    by (auto simp: box_kinds_def)
  then show ?thesis
    by (simp add: ports_of_def port_kinds_def map_concat map_enumerate_snd)
qed

lemma map_obj_ports_of: "map obj (ports_of K dm cd bs) = port_objs K dm cd bs"
proof -
  have "map (map obj) (map (\<lambda>(d, box). nodes_of Dom (Some d) (bdom K box) @ nodes_of Cod (Some d) (bcod K box)) (enumerate 0 bs))
      = map (\<lambda>(d, b). bdom K b @ bcod K b) (enumerate 0 bs)"
    by auto
  then show ?thesis
    by (simp add: ports_of_def port_objs_def map_concat map_enumerate_snd)
qed

lemma length_ports_of: "length (ports_of K dm cd bs) = length (port_objs K dm cd bs)"
  using arg_cong [OF map_obj_ports_of, of length K dm cd bs] by simp

lemma length_port_kinds: "length (port_kinds K dm cd bs) = length (port_objs K dm cd bs)"
  using arg_cong [OF map_kind_ports_of, of length K dm cd bs] by (simp add: length_ports_of)

lemma acc_Suc:
  assumes "W ! m = x" "x < num"
  shows "(map (acc W P m) [0..<num])[x := (if is_sink (P ! m)
            then (fst (map (acc W P m) [0..<num] ! x), insert m (snd (map (acc W P m) [0..<num] ! x)))
            else (insert m (fst (map (acc W P m) [0..<num] ! x)), snd (map (acc W P m) [0..<num] ! x)))]
         = map (acc W P (Suc m)) [0..<num]"
proof (rule nth_equalityI)
  show "length ((map (acc W P m) [0..<num])[x := (if is_sink (P ! m)
            then (fst (map (acc W P m) [0..<num] ! x), insert m (snd (map (acc W P m) [0..<num] ! x)))
            else (insert m (fst (map (acc W P m) [0..<num] ! x)), snd (map (acc W P m) [0..<num] ! x)))]) = length (map (acc W P (Suc m)) [0..<num])"
    by simp
next
  fix i assume "i < length ((map (acc W P m) [0..<num])[x := (if is_sink (P ! m)
            then (fst (map (acc W P m) [0..<num] ! x), insert m (snd (map (acc W P m) [0..<num] ! x)))
            else (insert m (fst (map (acc W P m) [0..<num] ! x)), snd (map (acc W P m) [0..<num] ! x)))])"
  then have i: "i < num" by simp
  show "(map (acc W P m) [0..<num])[x := (if is_sink (P ! m)
            then (fst (map (acc W P m) [0..<num] ! x), insert m (snd (map (acc W P m) [0..<num] ! x)))
            else (insert m (fst (map (acc W P m) [0..<num] ! x)), snd (map (acc W P m) [0..<num] ! x)))] ! i = map (acc W P (Suc m)) [0..<num] ! i"
    using i assms by (auto simp: nth_list_update acc_def less_Suc_eq)
qed

lemma add_ports_acc_gen:
  assumes "\<forall>j<length ss. W ! (k + n + j) = ss ! j \<and> is_sink (P ! (k + n + j)) = c"
    and "\<forall>w\<in>set ss. w < num"
  shows "fold (add_port c n) (enumerate k ss) (map (acc W P (k + n)) [0..<num])
         = map (acc W P (k + n + length ss)) [0..<num]"
  using assms
proof (induction ss arbitrary: k)
  case Nil then show ?case by simp
next
  case (Cons x xs)
  have x: "W ! (k + n) = x" "is_sink (P ! (k + n)) = c" "x < num"
    using Cons.prems by auto
  have step: "add_port c n (k, x) (map (acc W P (k + n)) [0..<num]) = map (acc W P (Suc k + n)) [0..<num]"
    using acc_Suc [OF x(1) x(3), of P] x(2) by (simp add: add_port_def)
  have "\<forall>j<length xs. W ! (Suc k + n + j) = xs ! j \<and> is_sink (P ! (Suc k + n + j)) = c"
    using Cons.prems(1) by (auto dest: spec [where x = "Suc j" for j])
  moreover have "\<forall>w\<in>set xs. w < num" using Cons.prems(2) by simp
  ultimately have "fold (add_port c n) (enumerate (Suc k) xs) (map (acc W P (Suc k + n)) [0..<num])
         = map (acc W P (Suc k + n + length xs)) [0..<num]"
    by (rule Cons.IH)
  then show ?case using step by simp
qed

lemma add_ports_acc:
  assumes "\<forall>j<length ss. W ! (n + j) = ss ! j \<and> is_sink (P ! (n + j)) = c"
    and "\<forall>w\<in>set ss. w < num"
  shows "add_ports c n ss (map (acc W P n) [0..<num]) = map (acc W P (n + length ss)) [0..<num]"
  using add_ports_acc_gen [of ss W 0 n P c num] assms by (simp add: add_ports_def)


lemma length_slice: "j \<le> length xs \<Longrightarrow> length (slice i j xs) = j - i"
  by (auto simp: slice_def)

lemma nth_slice: "j \<le> length xs \<Longrightarrow> k < j - i \<Longrightarrow> slice i j xs ! k = xs ! (i + k)"
  by (auto simp: slice_def)

lemma set_slice: "set (slice i j xs) \<subseteq> set xs"
  by (auto simp: slice_def dest: in_set_takeD in_set_dropD)

lemma length_box_kinds [simp]: "length (box_kinds K b) = length (bdom K b) + length (bcod K b)"
  by (simp add: box_kinds_def)

lemma fold_add_box_acc:
  assumes "\<forall>j<length (concat (map (box_kinds K) bs)). P ! (i + j) = concat (map (box_kinds K) bs) ! j"
    and "i + length (concat (map (box_kinds K) bs)) \<le> length W"
    and "\<forall>w\<in>set W. w < num"
  shows "fold add_box (box_wires_from K i bs W) (map (acc W P i) [0..<num], i)
         = (map (acc W P (i + length (concat (map (box_kinds K) bs)))) [0..<num],
            i + length (concat (map (box_kinds K) bs)))"
  using assms(1,2)
proof (induction bs arbitrary: i)
  case Nil then show ?case by simp
next
  case (Cons b bs)
  define a where "a = length (bdom K b)"
  define c where "c = length (bcod K b)"
  define L where "L = length (concat (map (box_kinds K) bs))"
  define dw where "dw = slice i (i + a) W"
  define cw where "cw = slice (i + a) (i + (a + c)) W"
  have len: "i + a + c + L \<le> length W"
    using Cons.prems(2) by (simp add: a_def c_def L_def)
  have ldw: "length dw = a" and lcw: "length cw = c"
    using len by (simp_all add: dw_def cw_def length_slice)
  have kinds: "\<forall>j<a + c + L. P ! (i + j) = (replicate a Dom @ replicate c Cod @ concat (map (box_kinds K) bs)) ! j"
    using Cons.prems(1) by (simp add: a_def c_def L_def box_kinds_def [of K b] add.assoc)
  have d: "\<forall>j<length dw. W ! (i + j) = dw ! j \<and> is_sink (P ! (i + j)) = True"
  proof (intro allI impI)
    fix j assume "j < length dw"
    then have j: "j < a" by (simp add: ldw)
    then have "P ! (i + j) = Dom" using kinds by (auto simp: nth_append)
    moreover have "dw ! j = W ! (i + j)" using j len by (simp add: dw_def nth_slice)
    ultimately show "W ! (i + j) = dw ! j \<and> is_sink (P ! (i + j)) = True" by (simp add: is_sink_def)
  qed
  have c': "\<forall>j<length cw. W ! (i + a + j) = cw ! j \<and> is_sink (P ! (i + a + j)) = False"
  proof (intro allI impI)
    fix j assume "j < length cw"
    then have j: "j < c" by (simp add: lcw)
    then have "P ! (i + (a + j)) = Cod" using kinds by (auto simp: nth_append)
    moreover have "cw ! j = W ! (i + a + j)" using j len by (simp add: cw_def nth_slice)
    ultimately show "W ! (i + a + j) = cw ! j \<and> is_sink (P ! (i + a + j)) = False"
      by (simp add: is_sink_def add.assoc)
  qed
  have sub: "\<forall>w\<in>set dw. w < num" "\<forall>w\<in>set cw. w < num"
    using assms(3) set_slice [of i "i + a" W] set_slice [of "i + a" "i + (a + c)" W]
    by (auto simp: dw_def cw_def)
  have s1: "add_ports True i dw (map (acc W P i) [0..<num]) = map (acc W P (i + a)) [0..<num]"
    using add_ports_acc [OF d sub(1)] by (simp add: ldw)
  have s2: "add_ports False (i + a) cw (map (acc W P (i + a)) [0..<num]) = map (acc W P (i + a + c)) [0..<num]"
    using add_ports_acc [OF c' sub(2)] by (simp add: lcw)
  have step: "add_box (dw, cw) (map (acc W P i) [0..<num], i) = (map (acc W P (i + a + c)) [0..<num], i + a + c)"
    by (simp add: add_box_def s1 ldw lcw s2 add.assoc)
  have k': "\<forall>j<length (concat (map (box_kinds K) bs)). P ! (i + a + c + j) = concat (map (box_kinds K) bs) ! j"
  proof (intro allI impI)
    fix j assume "j < length (concat (map (box_kinds K) bs))"
    then have "a + c + j < a + c + L" by (simp add: L_def)
    then have "P ! (i + (a + c + j)) = (replicate a Dom @ replicate c Cod @ concat (map (box_kinds K) bs)) ! (a + c + j)"
      using kinds by blast
    then show "P ! (i + a + c + j) = concat (map (box_kinds K) bs) ! j"
      by (simp add: nth_append add.assoc)
  qed
  have "fold add_box (box_wires_from K (i + a + c) bs W) (map (acc W P (i + a + c)) [0..<num], i + a + c)
      = (map (acc W P (i + a + c + length (concat (map (box_kinds K) bs)))) [0..<num],
         i + a + c + length (concat (map (box_kinds K) bs)))"
    using len by (intro Cons.IH k') (simp add: L_def)
  then show ?case
    using step by (simp add: a_def c_def dw_def cw_def add.assoc)
qed


lemma length_port_objs:
  "length (port_objs K dm cd bs) = length dm + length (concat (map (box_kinds K) bs)) + length cd"
  by (simp add: port_objs_def length_concat o_def) 

lemma acc_0: "replicate num ({}, {}) = map (acc W P 0) [0..<num]"
  by (rule nth_equalityI) (auto simp: acc_def)

lemma spider_wires_acc:
  assumes len: "length (wires h) = length (ports K h)"
    and rng: "\<forall>w\<in>set (wires h). w < n_spiders h"
  shows "spider_wires K h
         = map (acc (wires h) (map kind (ports K h)) (length (wires h))) [0..<n_spiders h]"
proof -
  define W where "W = wires h"
  define P where "P = map kind (ports K h)"
  define num where "num = n_spiders h"
  define L where "L = length (concat (map (box_kinds K) (boxes h)))"
  define a where "a = length (domH h)"
  define c where "c = length (codH h)"
  have P: "P = replicate a Input @ concat (map (box_kinds K) (boxes h)) @ replicate c Output"
    by (simp add: P_def ports_def map_kind_ports_of port_kinds_def a_def c_def)
  have N: "length W = a + L + c"
    using len by (simp add: W_def ports_def length_ports_of length_port_objs a_def c_def L_def)
  have rng': "\<forall>w\<in>set W. w < num" using rng by (simp add: W_def num_def)
  have s1: "add_ports False 0 (take a W) (map (acc W P 0) [0..<num]) = map (acc W P a) [0..<num]"
  proof -
    have "\<forall>j<length (take a W). W ! (0 + j) = take a W ! j \<and> is_sink (P ! (0 + j)) = False"
      using N by (auto simp: P nth_append is_sink_def)
    moreover have "\<forall>w\<in>set (take a W). w < num" using rng' by (auto dest: in_set_takeD)
    ultimately show ?thesis using add_ports_acc [of "take a W" W 0 P False num] N by simp
  qed
  have s2: "fold add_box (box_wires_from K a (boxes h) W) (map (acc W P a) [0..<num], a)
     = (map (acc W P (a + L)) [0..<num], a + L)"
    unfolding L_def
  proof (rule fold_add_box_acc)
    show "\<forall>j<length (concat (map (box_kinds K) (boxes h))). P ! (a + j) = concat (map (box_kinds K) (boxes h)) ! j"
      by (simp add: P nth_append)
    show "a + length (concat (map (box_kinds K) (boxes h))) \<le> length W" using N by (simp add: L_def)
    show "\<forall>w\<in>set W. w < num" by (rule rng')
  qed
  have s3: "add_ports True (a + L) (drop (length W - c) W) (map (acc W P (a + L)) [0..<num])
     = map (acc W P (length W)) [0..<num]"
  proof -
    have "\<forall>j<length (drop (length W - c) W). W ! (a + L + j) = drop (length W - c) W ! j
            \<and> is_sink (P ! (a + L + j)) = True"
      using N by (auto simp: P nth_append is_sink_def L_def)
    moreover have "\<forall>w\<in>set (drop (length W - c) W). w < num" using rng' by (auto dest: in_set_dropD)
    ultimately show ?thesis
      using add_ports_acc [of "drop (length W - c) W" W "a + L" P True num] N by simp
  qed
  show ?thesis
    using s1 s2 s3
    by (simp add: spider_wires_def Let_def box_wires_def acc_0 [of _ W P] 
        W_def [symmetric] P_def [symmetric] num_def [symmetric] a_def [symmetric] c_def [symmetric])
qed

section \<open>The constructor\<close>

lemma acc_union: "fst (acc W P m s) \<union> snd (acc W P m s) = {p. p < m \<and> W ! p = s}"
  by (auto simp: acc_def)

lemma type_check_iff:
  assumes len: "length (wires h) = length (ports K h)"
    and rng: "\<forall>w\<in>set (wires h). w < n_spiders h"
  shows "type_check K h \<longleftrightarrow>
         (\<forall>p<length (wires h). obj (ports K h ! p) = spider_types h ! (wires h ! p)
                              \<or> obj (ports K h ! p) = radj K (spider_types h ! (wires h ! p)))"
proof -
  have "type_check K h \<longleftrightarrow> (\<forall>s<n_spiders h. \<forall>i\<in>fst (acc (wires h) (map kind (ports K h)) (length (wires h)) s)
            \<union> snd (acc (wires h) (map kind (ports K h)) (length (wires h)) s).
          obj (ports K h ! i) = spider_types h ! s \<or> obj (ports K h ! i) = radj K (spider_types h ! s))"
    by (simp add: type_check_def spider_wires_acc [OF len rng] list_all_length n_spiders_def split_beta)
  also have "\<dots> \<longleftrightarrow> (\<forall>p<length (wires h). obj (ports K h ! p) = spider_types h ! (wires h ! p)
                              \<or> obj (ports K h ! p) = radj K (spider_types h ! (wires h ! p)))"
    unfolding acc_union using rng nth_mem [of _ "wires h"] by fastforce
  finally show ?thesis .
qed

lemma dict_get_None: "dict_get d k = None \<longleftrightarrow> k \<notin> fst ` set d"
  by (simp add: dict_get_def map_of_eq_None_iff)

lemma relabeling_of_eq:
  "relabeling_of ws d = uniq ws @ sort (filter (\<lambda>k. k \<notin> set ws) (dict_keys d))"
  by (simp add: relabeling_of_def first_occurrences)

lemma set_relabeling_of: "set (relabeling_of ws d) = set ws \<union> fst ` set d"
  by (auto simp: relabeling_of_eq dict_keys_def)

lemma distinct_relabeling_of: "distinct (relabeling_of ws d)"
  by (auto simp: relabeling_of_eq dict_keys_def)

lemma index_relabeling_of:
  "s \<in> set ws \<Longrightarrow> index_of (relabeling_of ws d) s = index_of (uniq ws) s"
  by (simp add: relabeling_of_eq index_of_append_left)

lemma map_index_relabeling_of:
  "map (index_of (relabeling_of ws d)) ws = map (index_of (uniq ws)) ws"
  by (simp add: index_relabeling_of)

lemma Hypergraph_eq_Inr:
  "Hypergraph K dm cd bs ws st off = Inr h \<longleftrightarrow>
     accepts K dm cd bs ws (types_dict (ports_of K dm cd bs) ws st)
     \<and> h = built K dm cd bs ws (types_dict (ports_of K dm cd bs) ws st) off"
proof -
  define d where "d = types_dict (ports_of K dm cd bs) ws st"
  define rl where "rl = relabeling_of ws d"
  define h0 where "h0 = built K dm cd bs ws d off"
  have h0: "\<lparr> domH = dm, codH = cd, boxes = bs, wires = map (index_of rl) ws,
             spider_types = map (\<lambda>t. tynorm K (hd t)) (map (\<lambda>s. the (dict_get d s)) rl),
             offsets = offsets_of bs off \<rparr> = h0"
    by (simp add: h0_def built_def rl_def map_index_relabeling_of o_def)
  have tc: "type_check K h0 \<longleftrightarrow>
      (\<forall>p<length ws. port_objs K dm cd bs ! p = tynorm K (hd (the (dict_get d (ws ! p))))
           \<or> port_objs K dm cd bs ! p = radj K (tynorm K (hd (the (dict_get d (ws ! p))))))"
    if len: "length ws = length (ports_of K dm cd bs)" and keys: "set ws \<subseteq> fst ` set d"
  proof -
    have l: "length (wires h0) = length (ports K h0)"
      using len by (simp add: h0_def built_def ports_def)
    have r: "\<forall>w\<in>set (wires h0). w < n_spiders h0"
    proof
      fix w assume "w \<in> set (wires h0)"
      then obtain s where s: "s \<in> set ws" "w = index_of (uniq ws) s"
        by (auto simp: h0_def built_def)
      then have "w = index_of (relabeling_of ws d) s" by (simp add: index_relabeling_of)
      moreover have "s \<in> set (relabeling_of ws d)" using s by (simp add: set_relabeling_of)
      ultimately show "w < n_spiders h0"
        using index_of_less [of s "relabeling_of ws d"] by (simp add: h0_def built_def n_spiders_def)
    qed
    have st: "spider_types h0 ! (wires h0 ! p) = tynorm K (hd (the (dict_get d (ws ! p))))" if "p < length ws" for p
    proof -
      have "ws ! p \<in> set (relabeling_of ws d)" using that by (simp add: set_relabeling_of)
      moreover have "index_of (uniq ws) (ws ! p) = index_of (relabeling_of ws d) (ws ! p)"
        using that by (simp add: index_relabeling_of)
      ultimately show ?thesis
        using that index_of_less [of "ws ! p" "relabeling_of ws d"]
        by (simp add: h0_def built_def)
    qed
    have ob: "obj (ports K h0 ! p) = port_objs K dm cd bs ! p" if "p < length ws" for p
      using that len map_obj_ports_of [of K dm cd bs, symmetric]
      by (simp add: h0_def built_def ports_def)
    show ?thesis
      unfolding type_check_iff [OF l r] using st ob by (simp add: h0_def built_def)
  qed
  show ?thesis
    unfolding Hypergraph_def Let_def d_def [symmetric] rl_def [symmetric] h0 accepts_def h0_def [symmetric]
    using tc
    by (auto simp: length_ports_of rl_def set_relabeling_of dict_get_None)
qed

section \<open>Canonical relabelling\<close>

lemma removeAll_filter: "removeAll x (filter P xs) = filter (\<lambda>y. y \<noteq> x \<and> P y) xs"
  by (induction xs) auto

lemma uniq_append: "uniq (xs @ ys) = uniq xs @ filter (\<lambda>y. y \<notin> set xs) (uniq ys)"
  by (induction xs) (auto simp: removeAll_filter intro!: filter_cong)

lemma length_uniq: "length (uniq xs) = card (set xs)"
  using distinct_card [of "uniq xs"] by simp

lemma uniq_map: "inj_on f (set xs) \<Longrightarrow> uniq (map f xs) = map f (uniq xs)"
proof (induction xs)
  case Nil then show ?case by simp
next
  case (Cons x xs)
  then have inj: "inj_on f (set xs)" by (simp add: inj_on_def)
  have "removeAll (f x) (map f (uniq xs)) = map f (removeAll x (uniq xs))"
    using Cons.prems by (intro map_removeAll_inj_on [symmetric]) (auto simp: inj_on_def)
  then show ?case using Cons.IH [OF inj] by simp
qed

lemma index_of_map: "inj_on f (insert x (set xs)) \<Longrightarrow> index_of (map f xs) (f x) = index_of xs x"
  by (induction xs) (auto simp: inj_on_def)

lemma relabel_inj:
  assumes "inj_on f (set ws)"
  shows "map (index_of (uniq (map f ws))) (map f ws) = map (index_of (uniq ws)) ws"
proof -
  have "index_of (map f (uniq ws)) (f x) = index_of (uniq ws) x" if "x \<in> set ws" for x
    using assms that by (intro index_of_map) (simp add: insert_absorb)
  then show ?thesis by (simp add: uniq_map [OF assms])
qed

lemma relabel_canonical: "canonical ws \<Longrightarrow> map (index_of (uniq ws)) ws = ws"
proof -
  assume c: "canonical ws"
  have "index_of (uniq ws) x = x" if "x \<in> set ws" for x
  proof -
    have "x \<in> set [0..<length (uniq ws)]" using that c unfolding canonical_def by (metis set_uniq)
    then show ?thesis using c unfolding canonical_def by (metis atLeastLessThan_iff index_of_upt set_upt)
  qed
  then show ?thesis by (simp add: map_idI)
qed

lemma set_relabel: "set (map (index_of (uniq ws)) ws) = {0..<card (set ws)}"
proof -
  have "set (map (index_of (uniq ws)) ws) = index_of (uniq ws) ` set (uniq ws)" by simp
  also have "\<dots> = set (map (index_of (uniq ws)) (uniq ws))" by simp
  also have "\<dots> = {0..<card (set ws)}" by (simp add: map_index_of_self length_uniq)
  finally show ?thesis .
qed

lemma uniq_relabel: "uniq (map (index_of (uniq ws)) ws) = [0..<card (set ws)]"
  using uniq_map [OF inj_on_index_of, of ws]
  by (metis distinct_uniq inj_on_index_of length_uniq map_index_of_self set_uniq uniq_map) 

lemma canonical_relabel: "canonical (map (index_of (uniq ws)) ws)"
  by (simp add: canonical_def uniq_relabel)

lemma take_relabel:
  "take i (map (index_of (uniq ws)) ws) = map (index_of (uniq (take i ws))) (take i ws)"
proof -
  have "uniq ws = uniq (take i ws) @ filter (\<lambda>y. y \<notin> set (take i ws)) (uniq (drop i ws))"
    using uniq_append [of "take i ws" "drop i ws"] by simp
  then have "index_of (uniq ws) x = index_of (uniq (take i ws)) x" if "x \<in> set (take i ws)" for x
    using that by (simp add: index_of_append_left)
  then show ?thesis by (simp add: take_map)
qed

lemma set_take_relabel:
  "set (take i (map (index_of (uniq ws)) ws)) = {0..<card (set (take i ws))}"
  by (simp only: take_relabel set_relabel)

lemma canonical_prefix:
  assumes "canonical ws"
  shows "set (take i ws) = {0..<card (set (take i ws))}"
  using set_take_relabel [of i ws] relabel_canonical [OF assms] by simp

lemma canonical_bound:
  assumes c: "canonical ws" and i: "i < length ws"
  shows "ws ! i \<le> (if i = 0 then 0 else Suc (Max (set (take i ws))))"
proof -
  define k where "k = card (set (take i ws))"
  have pre: "set (take i ws) = {0..<k}" unfolding k_def by (rule canonical_prefix [OF c])
  have "set (take (Suc i) ws) = insert (ws ! i) (set (take i ws))"
    using i by (simp add: take_Suc_conv_app_nth)
  then have "card (set (take (Suc i) ws)) \<le> Suc k"
    unfolding k_def by (simp add: card_insert_if)
  moreover have "ws ! i \<in> set (take (Suc i) ws)" using i by (simp add: take_Suc_conv_app_nth)
  ultimately have le: "ws ! i \<le> k"
  proof -
    assume a: "card (set (take (Suc i) ws)) \<le> Suc k" "ws ! i \<in> set (take (Suc i) ws)"
    have "ws ! i \<in> {0..<card (set (take (Suc i) ws))}"
      using a(2) canonical_prefix [OF c, of "Suc i"] by blast
    then show ?thesis using a(1) by simp
  qed
  show ?thesis
  proof (cases "i = 0")
    case True
    then show ?thesis using le by (simp add: k_def)
  next
    case False
    then have "take i ws \<noteq> []" using i by auto
    then have "k > 0" unfolding k_def by (simp add: card_gt_0_iff)
    then have "Max {0..<k} = k - 1"
      by (intro Max_eqI) auto
    then have "Max (set (take i ws)) = k - 1"
      unfolding pre .
    then show ?thesis using le \<open>k > 0\<close> False by simp
  qed
qed

section \<open>Hypergraph values\<close>

lemma built_sel [simp]:
  "domH (built K dm cd bs ws d off) = dm"
  "codH (built K dm cd bs ws d off) = cd"
  "boxes (built K dm cd bs ws d off) = bs"
  "wires (built K dm cd bs ws d off) = map (index_of (uniq ws)) ws"
  "spider_types (built K dm cd bs ws d off) = map (\<lambda>s. tynorm K (hd (the (dict_get d s)))) (relabeling_of ws d)"
  "offsets (built K dm cd bs ws d off) = offsets_of bs off"
  by (simp_all add: built_def)

lemma is_hypergraphE:
  assumes "is_hypergraph K h"
  obtains dm cd bs ws d off where "accepts K dm cd bs ws d" "h = built K dm cd bs ws d off"
  using assms unfolding is_hypergraph_def Hypergraph_eq_Inr by blast

lemma is_hypergraphI: "Hypergraph K dm cd bs ws st off = Inr h \<Longrightarrow> is_hypergraph K h"
  unfolding is_hypergraph_def by blast

lemma n_spiders_built: "n_spiders (built K dm cd bs ws d off) = length (relabeling_of ws d)"
  by (simp add: n_spiders_def)

lemma card_le_relabeling: "card (set ws) \<le> length (relabeling_of ws d)"
  by (simp add: relabeling_of_eq length_uniq)

lemma count_list_0_iff: "count_list xs x = 0 \<longleftrightarrow> x \<notin> set xs"
  by (induction xs) auto

lemma scalar_spiders_built:
  "scalar_spiders (built K dm cd bs ws d off) = [card (set ws)..<length (relabeling_of ws d)]"
proof -
  let ?n = "length (relabeling_of ws d)" and ?k = "card (set ws)"
  have "filter (\<lambda>i. i \<notin> {0..<?k}) [0..<?n] = filter (\<lambda>i. i \<notin> {0..<?k}) ([0..<?k] @ [?k..<?n])"
    using card_le_relabeling [of ws d] by (metis le_add_diff_inverse upt_add_eq_append zero_le)
  also have "\<dots> = [?k..<?n]"
    by (auto simp: filter_empty_conv intro!: filter_True)
  finally show ?thesis
    by (simp add: scalar_spiders_def n_spiders_built count_list_0_iff set_relabel del: set_map)
qed

lemma dict_get_distinct:
  "distinct (map fst d) \<Longrightarrow> dict_get d k = Some v \<longleftrightarrow> (k, v) \<in> set d"
  by (simp add: dict_get_def rev_map [symmetric])

lemma dict_get_enumerate: "i < length xs \<Longrightarrow> dict_get (enumerate 0 xs) i = Some (xs ! i)"
  by (simp add: dict_get_distinct in_set_enumerate_eq)

text \<open>
  C9.  The wires of a hypergraph are labels below \<open>n_spiders\<close>, one type per label; every
  entry of the wires is at most one more than the largest entry before it, the first one
  being \<open>0\<close>; and a spider that does not occur in the wires is larger than all that occur.
\<close>

theorem canonical_label_invariant:
  assumes "is_hypergraph K h"
  shows "set (wires h) \<union> set (scalar_spiders h) = {0..<n_spiders h}
       \<and> n_spiders h = length (spider_types h)
       \<and> (\<forall>i<length (wires h). wires h ! i \<le> (if i = 0 then 0 else Suc (Max (set (take i (wires h))))))
       \<and> (\<forall>s<n_spiders h. s \<notin> set (wires h) \<longrightarrow> (\<forall>w\<in>set (wires h). w < s))"
proof -
  from assms obtain dm cd bs ws d off where h: "h = built K dm cd bs ws d off"
    by (rule is_hypergraphE)
  have w: "set (wires h) = {0..<card (set ws)}"
    unfolding h built_sel by (rule set_relabel)
  have le: "card (set ws) \<le> n_spiders h"
    unfolding h n_spiders_built by (rule card_le_relabeling)
  have sc: "set (scalar_spiders h) = {card (set ws)..<n_spiders h}"
    unfolding h scalar_spiders_built n_spiders_built by simp
  have c: "canonical (wires h)"
    unfolding h built_sel by (rule canonical_relabel)
  have "set (wires h) \<union> set (scalar_spiders h) = {0..<n_spiders h}"
    unfolding w sc using le by auto
  moreover have "\<forall>i<length (wires h). wires h ! i \<le> (if i = 0 then 0 else Suc (Max (set (take i (wires h)))))"
    using canonical_bound [OF c] by blast
  moreover have "\<forall>s<n_spiders h. s \<notin> set (wires h) \<longrightarrow> (\<forall>w\<in>set (wires h). w < s)"
    unfolding w by auto
  ultimately show ?thesis by (simp add: n_spiders_def)
qed

lemma from_box_f: "from_box frobenius box_f = Inr hyp_f"
  by code_simp

lemma is_hypergraph_f: "is_hypergraph frobenius hyp_f"
  using from_box_f unfolding from_box_def Let_def by (rule is_hypergraphI)

theorem canonical_label_invariant_witness:
  "is_hypergraph frobenius hyp_f
   \<and> set (wires hyp_f) \<union> set (scalar_spiders hyp_f) = {0..<n_spiders hyp_f}
   \<and> n_spiders hyp_f = 2
   \<and> wires hyp_f ! 2 \<le> Suc (Max (set (take 2 (wires hyp_f))))"
proof -
  note inv = canonical_label_invariant [OF is_hypergraph_f]
  have "2 < length (wires hyp_f)" by (simp add: hyp_f_def)
  with inv have "wires hyp_f ! 2 \<le> (if (2::nat) = 0 then 0 else Suc (Max (set (take 2 (wires hyp_f)))))"
    by blast
  moreover have "n_spiders hyp_f = 2" by (simp add: n_spiders_def hyp_f_def)
  ultimately show ?thesis using inv is_hypergraph_f by simp
qed

section \<open>Construction from canonical labels\<close>

lemma upt_split: "k \<le> n \<Longrightarrow> [0..<k] @ [k..<n] = [0..<n]"
  by (metis le_add_diff_inverse upt_add_eq_append zero_le)

lemma fst_set_enumerate: "fst ` set (enumerate 0 xs) = {0..<length xs}"
proof -
  have "fst ` set (enumerate 0 xs) = set (map fst (enumerate 0 xs))" by (simp only: set_map)
  then show ?thesis by simp
qed

lemma declares_dict:
  assumes "declares st ts"
  shows "fst ` set (types_dict ps ws st) = {0..<length ts}"
    and "i < length ts \<Longrightarrow> dict_get (types_dict ps ws st) i = Some [ts ! i]"
proof -
  show "fst ` set (types_dict ps ws st) = {0..<length ts}"
    using assms
    by (cases st) (simp_all add: declares_def types_dict_def atoms_def fst_set_enumerate)
  show "dict_get (types_dict ps ws st) i = Some [ts ! i]" if "i < length ts"
  proof (cases st)
    case NoTypes
    then show ?thesis using assms by (simp add: declares_def)
  next
    case (TypeMap m)
    then have "map (dict_get m) [0..<length ts] ! i = map Some (atoms ts) ! i"
      using assms by (simp add: declares_def)
    then show ?thesis using that TypeMap by (simp add: types_dict_def atoms_def)
  next
    case (TypeSeq l)
    then show ?thesis using assms that
      by (simp add: declares_def types_dict_def dict_get_enumerate atoms_def)
  qed
qed

lemma relabeling_of_canonical:
  assumes c: "canonical ws" and keys: "fst ` set d = {0..<n}" and sub: "set ws \<subseteq> fst ` set d"
  shows "relabeling_of ws d = [0..<n]"
proof -
  define k where "k = length (uniq ws)"
  have u: "uniq ws = [0..<k]" using c by (simp add: canonical_def k_def)
  have sw: "set ws = {0..<k}" using arg_cong [OF u, of set] by simp
  have kn: "k \<le> n" using sub unfolding sw keys by (cases k) auto
  have "sort (filter (\<lambda>i. i \<notin> set ws) (dict_keys d)) = [k..<n]"
  proof (rule sorted_distinct_set_unique)
    show "set (sort (filter (\<lambda>i. i \<notin> set ws) (dict_keys d))) = set [k..<n]"
      using keys by (auto simp: dict_keys_def sw)
  qed (simp_all add: dict_keys_def)
  then show ?thesis
    using kn by (simp add: relabeling_of_eq u sw upt_split)
qed

lemma first_occurrences_built:
  "uniq (wires (built K dm cd bs ws d off)) @ scalar_spiders (built K dm cd bs ws d off)
   = [0..<n_spiders (built K dm cd bs ws d off)]"
  using card_le_relabeling [of ws d]
  by (simp add: uniq_relabel scalar_spiders_built n_spiders_built upt_split del: built_sel(5))

text \<open>
  C5, as amended.  Whatever the labels given, in the hypergraph built the first occurrences
  of the labels along the wires, followed by the scalar spiders, are \<open>0, 1, 2, \<dots>\<close> up to
  \<open>n_spiders\<close>.  When the wires given are canonical and the types \<open>ts\<close> are declared for
  the labels below \<open>length ts\<close>, the wires built are the wires given and the types built
  are the types given, each type with a \<open>z\<close> flag replaced by its adjoint; they are the
  types given when no type has the flag.
\<close>

theorem canonical_construction:
  assumes "Hypergraph K dm cd bs ws st off = Inr h"
  shows "sort_key (index_of (wires h)) (remdups (wires h)) @ scalar_spiders h = [0..<n_spiders h]
       \<and> (canonical ws \<and> declares st ts \<longrightarrow>
            wires h = ws \<and> spider_types h = map (tynorm K) ts
            \<and> ((\<forall>t\<in>set ts. \<not> zflag K t) \<longrightarrow> spider_types h = ts))"
proof -
  define d where "d = types_dict (ports_of K dm cd bs) ws st"
  have acc: "accepts K dm cd bs ws d" and h: "h = built K dm cd bs ws d off"
    using assms unfolding Hypergraph_eq_Inr d_def by simp_all
  have part2: "sort_key (index_of (wires h)) (remdups (wires h)) @ scalar_spiders h = [0..<n_spiders h]"
    unfolding first_occurrences h by (rule first_occurrences_built)
  have part1: "wires h = ws \<and> spider_types h = map (tynorm K) ts
            \<and> ((\<forall>t\<in>set ts. \<not> zflag K t) \<longrightarrow> spider_types h = ts)"
    if c: "canonical ws" and dc: "declares st ts"
  proof -
    have keys: "fst ` set d = {0..<length ts}"
      and get: "\<And>i. i < length ts \<Longrightarrow> dict_get d i = Some [ts ! i]"
      unfolding d_def using declares_dict [OF dc] by blast+
    have sub: "set ws \<subseteq> fst ` set d" using acc by (simp add: accepts_def)
    have rl: "relabeling_of ws d = [0..<length ts]"
      by (rule relabeling_of_canonical [OF c keys sub])
    have w: "wires h = ws" unfolding h built_sel by (rule relabel_canonical [OF c])
    have "spider_types h = map (\<lambda>i. tynorm K (ts ! i)) [0..<length ts]"
      unfolding h built_sel rl by (rule map_cong) (simp_all add: get)
    also have "\<dots> = map (tynorm K) ts"
      by (rule nth_equalityI) simp_all
    finally have t: "spider_types h = map (tynorm K) ts" .
    have "map (tynorm K) ts = ts" if "\<forall>t\<in>set ts. \<not> zflag K t"
      using that by (simp add: map_idI tynorm_def)
    with w t show ?thesis by simp
  qed
  from part1 part2 show ?thesis by blast
qed

theorem canonical_construction_witness:
  "Hypergraph frobenius [''x''] [''y''] [box_f] [0, 0, 1, 1] (TypeSeq (atoms [''x'', ''y''])) None = Inr hyp_f
   \<and> canonical [0, 0, 1, 1] \<and> declares (TypeSeq (atoms [''x'', ''y''])) [''x'', ''y''] 
   \<and> \<not> zflag frobenius ''x'' \<and> \<not> zflag frobenius ''y''
   \<and> sort_key (index_of (wires hyp_f)) (remdups (wires hyp_f)) @ scalar_spiders hyp_f = [0..<n_spiders hyp_f]
   \<and> wires hyp_f = [0, 0, 1, 1] \<and> spider_types hyp_f = [''x'', ''y'']"
proof -
  have e: "Hypergraph frobenius [''x''] [''y''] [box_f] [0, 0, 1, 1] (TypeSeq (atoms [''x'', ''y''])) None = Inr hyp_f"
    by code_simp
  have c: "canonical [0, 0, 1, 1]" by (simp add: canonical_def)
  have d: "declares (TypeSeq (atoms [''x'', ''y''])) [''x'', ''y'']" by (simp add: declares_def)
  have z: "\<not> zflag frobenius ''x''" "\<not> zflag frobenius ''y''" by (simp_all add: frobenius_def)
  then have "\<forall>t\<in>set [''x'', ''y'']. \<not> zflag frobenius t" by simp
  then show ?thesis
    using canonical_construction [OF e, of "[''x'', ''y'']"] e c d z by blast
qed

text \<open>
  The claim as stated fails where a declared type has the \<open>z\<close> flag: the labels are
  canonical and the type declared is \<open>x\<close> with \<open>z = 1\<close>, the type built is \<open>x\<close> with \<open>z = 0\<close>.
\<close>

theorem canonical_construction_counterexample:
  "canonical [0, 0] \<and> declares (TypeSeq [[(''x'', True)]]) [(''x'', True)]
   \<and> Hypergraph pivotal [(''x'', True)] [(''x'', True)] [] [0, 0] (TypeSeq [[(''x'', True)]]) None
     = Inr \<lparr> domH = [(''x'', True)], codH = [(''x'', True)], boxes = [], wires = [0, 0],
             spider_types = [(''x'', False)], offsets = [] \<rparr>
   \<and> [(''x'', False)] \<noteq> [(''x'', True)]"
proof -
  have "Hypergraph pivotal [(''x'', True)] [(''x'', True)] [] [0, 0] (TypeSeq [[(''x'', True)]]) None
     = Inr \<lparr> domH = [(''x'', True)], codH = [(''x'', True)], boxes = [], wires = [0, 0],
             spider_types = [(''x'', False)], offsets = [] \<rparr>"
    by code_simp
  then show ?thesis by (simp add: canonical_def declares_def atoms_def)
qed

section \<open>The invariant\<close>

lemma offsets_of_Nil: "offsets_of bs off = [] \<Longrightarrow> bs = []"
  by (cases off) (auto simp: offsets_of_def split: if_splits)

lemma is_hypergraph_wf:
  assumes "is_hypergraph K h"
  shows "wf K h"
proof -
  from assms obtain dm cd bs ws d off
    where acc: "accepts K dm cd bs ws d" and h: "h = built K dm cd bs ws d off"
    by (rule is_hypergraphE)
  let ?rl = "relabeling_of ws d"
  let ?T = "\<lambda>s. tynorm K (hd (the (dict_get d s)))"
  have len: "length ws = length (port_objs K dm cd bs)" using acc by (simp add: accepts_def)
  have typed: "list_all2 (port_ok K (spider_types h)) (port_objs K (domH h) (codH h) (boxes h)) (wires h)"
    unfolding list_all2_conv_all_nth
  proof (intro conjI allI impI)
    show "length (port_objs K (domH h) (codH h) (boxes h)) = length (wires h)"
      using len by (simp add: h)
    fix p assume "p < length (port_objs K (domH h) (codH h) (boxes h))"
    then have p: "p < length ws" using len by (simp add: h)
    then have mem: "ws ! p \<in> set ?rl" by (simp add: set_relabeling_of)
    have ix: "index_of (uniq ws) (ws ! p) = index_of ?rl (ws ! p)"
      using p by (simp add: index_relabeling_of)
    have lt: "index_of ?rl (ws ! p) < length ?rl" using mem by (rule index_of_less)
    have ty: "map ?T ?rl ! index_of ?rl (ws ! p) = ?T (ws ! p)"
      using lt mem by simp
    have "port_objs K dm cd bs ! p = ?T (ws ! p) \<or> port_objs K dm cd bs ! p = radj K (?T (ws ! p))"
      using acc p by (simp add: accepts_def)
    then show "port_ok K (spider_types h) (port_objs K (domH h) (codH h) (boxes h) ! p) (wires h ! p)"
      using p lt ty by (simp add: port_ok_def h ix)
  qed
  have "canonical (wires h)" unfolding h built_sel by (rule canonical_relabel)
  moreover have "\<forall>t\<in>set (spider_types h). \<exists>u. t = tynorm K u" by (auto simp: h)
  moreover have "offsets h = [] \<longrightarrow> boxes h = []" by (auto simp: h dest: offsets_of_Nil)
  ultimately show ?thesis using typed by (simp add: wf_def)
qed

lemma tynorm_unflagged: "adjoints_ok K \<Longrightarrow> \<not> zflag K (tynorm K u)"
  by (auto simp: adjoints_ok_def tynorm_def)

lemma tynorm_idem: "adjoints_ok K \<Longrightarrow> tynorm K (tynorm K u) = tynorm K u"
  using tynorm_unflagged [of K u] by (simp add: tynorm_def [of K "tynorm K u"])

lemma wf_tynorm: "adjoints_ok K \<Longrightarrow> wf K h \<Longrightarrow> map (tynorm K) (spider_types h) = spider_types h"
  by (rule map_idI) (auto simp: wf_def tynorm_idem)

lemma tynorm_port: 
  assumes "adjoints_ok K" "\<not> zflag K t" "ob = t \<or> ob = radj K t"
  shows "tynorm K ob = t"
  using assms by (auto simp: adjoints_ok_def tynorm_def)

lemma port_self: "adjoints_ok K \<Longrightarrow> ob = tynorm K ob \<or> ob = radj K (tynorm K ob)"
  by (auto simp: adjoints_ok_def tynorm_def)

lemma accepts_list_all2:
  "accepts K dm cd bs ws d \<longleftrightarrow>
     (\<forall>s\<in>fst ` set d. length (the (dict_get d s)) = 1)
     \<and> list_all2 (\<lambda>ob w. w \<in> fst ` set d \<and> (ob = tynorm K (hd (the (dict_get d w)))
                                            \<or> ob = radj K (tynorm K (hd (the (dict_get d w))))))
         (port_objs K dm cd bs) ws"
proof -
  have "set ws \<subseteq> fst ` set d \<longleftrightarrow> (\<forall>p<length ws. ws ! p \<in> fst ` set d)"
    using nth_mem [of _ ws] by (fastforce simp: in_set_conv_nth)
  then show ?thesis
    unfolding accepts_def list_all2_conv_all_nth by auto
qed

lemma accepts_seq:
  "accepts K dm cd bs ws (enumerate 0 (atoms ts))
   \<longleftrightarrow> list_all2 (port_ok K (map (tynorm K) ts)) (port_objs K dm cd bs) ws"
proof -
  have l: "length (atoms ts) = length ts" by (simp add: atoms_def)
  have g: "dict_get (enumerate 0 (atoms ts)) w = Some [ts ! w]" if "w < length ts" for w
    using that dict_get_enumerate [of w "atoms ts"] by (simp add: atoms_def)
  have "(\<lambda>ob w. w \<in> fst ` set (enumerate 0 (atoms ts)) \<and> (ob = tynorm K (hd (the (dict_get (enumerate 0 (atoms ts)) w)))
                                            \<or> ob = radj K (tynorm K (hd (the (dict_get (enumerate 0 (atoms ts)) w))))))
       = port_ok K (map (tynorm K) ts)"
    by (intro ext) (auto simp: fst_set_enumerate port_ok_def g l)
  moreover have "\<forall>s\<in>fst ` set (enumerate 0 (atoms ts)). length (the (dict_get (enumerate 0 (atoms ts)) s)) = 1"
    by (simp add: fst_set_enumerate g l)
  ultimately show ?thesis
    unfolding accepts_list_all2 by simp
qed

section \<open>The segments of the wires\<close>

lemma port_objs_eq: "port_objs K dm cd bs = dm @ box_objs K bs @ cd"
  by (simp add: port_objs_def box_objs_def)

lemma box_objs_append [simp]: "box_objs K (bs @ bs') = box_objs K bs @ box_objs K bs'"
  by (simp add: box_objs_def)

lemma wf_typed: "wf K h \<Longrightarrow>
  list_all2 (port_ok K (spider_types h)) (domH h @ box_objs K (boxes h) @ codH h) (wires h)"
  by (simp add: wf_def port_objs_eq)

lemma wf_length: "wf K h \<Longrightarrow> length (wires h) = length (domH h) + length (box_objs K (boxes h)) + length (codH h)"
  using list_all2_lengthD [OF wf_typed, of K h] by simp

lemma inner_wires_eq: "inner_wires h = slice (length (domH h)) (length (wires h) - length (codH h)) (wires h)"
  by (simp add: inner_wires_def)

lemma wf_split:
  assumes "wf K h"
  shows "wires h = take (length (domH h)) (wires h) @ inner_wires h
                   @ drop (length (wires h) - length (codH h)) (wires h)"
    and "length (take (length (domH h)) (wires h)) = length (domH h)"
    and "length (inner_wires h) = length (box_objs K (boxes h))"
    and "length (drop (length (wires h) - length (codH h)) (wires h)) = length (codH h)"
proof -
  note len = wf_length [OF assms]
  show "length (take (length (domH h)) (wires h)) = length (domH h)" using len by simp
  show "length (inner_wires h) = length (box_objs K (boxes h))"
    using len by (simp add: inner_wires_eq slice_def)
  show "length (drop (length (wires h) - length (codH h)) (wires h)) = length (codH h)"
    using len by simp
  have e: "length (wires h) - length (codH h) = length (domH h) + length (box_objs K (boxes h))"
    using len by simp
  have "drop (length (domH h) + length (box_objs K (boxes h))) (wires h)
        = drop (length (box_objs K (boxes h))) (drop (length (domH h)) (wires h))"
    by (simp add: add.commute)
  then have "inner_wires h @ drop (length (wires h) - length (codH h)) (wires h) = drop (length (domH h)) (wires h)"
    unfolding inner_wires_eq slice_def e by (simp only: add_diff_cancel_left' append_take_drop_id)
  then show "wires h = take (length (domH h)) (wires h) @ inner_wires h
                   @ drop (length (wires h) - length (codH h)) (wires h)"
    by simp
qed

lemma wf_segments:
  assumes "wf K h"
  shows "list_all2 (port_ok K (spider_types h)) (domH h) (take (length (domH h)) (wires h))"
    and "list_all2 (port_ok K (spider_types h)) (box_objs K (boxes h)) (inner_wires h)"
    and "list_all2 (port_ok K (spider_types h)) (codH h) (drop (length (wires h) - length (codH h)) (wires h))"
proof -
  have "list_all2 (port_ok K (spider_types h)) (domH h @ box_objs K (boxes h) @ codH h)
     (take (length (domH h)) (wires h) @ inner_wires h
                   @ drop (length (wires h) - length (codH h)) (wires h))"
    using wf_typed [OF assms] wf_split(1) [OF assms] by simp
  then have "list_all2 (port_ok K (spider_types h)) (domH h) (take (length (domH h)) (wires h))
     \<and> list_all2 (port_ok K (spider_types h)) (box_objs K (boxes h)) (inner_wires h)
     \<and> list_all2 (port_ok K (spider_types h)) (codH h) (drop (length (wires h) - length (codH h)) (wires h))"
    using wf_split(2,3) [OF assms] by (simp add: list_all2_append)
  then show "list_all2 (port_ok K (spider_types h)) (domH h) (take (length (domH h)) (wires h))"
    and "list_all2 (port_ok K (spider_types h)) (box_objs K (boxes h)) (inner_wires h)"
    and "list_all2 (port_ok K (spider_types h)) (codH h) (drop (length (wires h) - length (codH h)) (wires h))"
    by simp_all
qed

lemma length_relabeling_of: "length (relabeling_of ws d) = card (set ws \<union> fst ` set d)"
  using distinct_card [OF distinct_relabeling_of, of ws d] by (simp add: set_relabeling_of)

lemma port_ok_left: "port_ok K ts ob w \<Longrightarrow> port_ok K (ts @ ts') ob w"
  by (auto simp: port_ok_def nth_append)

lemma port_ok_right: "port_ok K ts' ob w \<Longrightarrow> port_ok K (ts @ ts') ob (length ts + w)"
  by (auto simp: port_ok_def nth_append)

lemma list_all2_port_left:
  "list_all2 (port_ok K ts) xs ws \<Longrightarrow> list_all2 (port_ok K (ts @ ts')) xs ws"
  by (erule list_all2_mono) (rule port_ok_left)

lemma list_all2_port_right:
  "list_all2 (port_ok K ts') xs ws \<Longrightarrow> list_all2 (port_ok K (ts @ ts')) xs (map (\<lambda>i. length ts + i) ws)"
  unfolding list_all2_map2 by (erule list_all2_mono) (rule port_ok_right)

lemma list_all2_port_set: "list_all2 (port_ok K ts) xs ws \<Longrightarrow> set ws \<subseteq> {0..<length ts}"
  by (auto simp: list_all2_conv_all_nth in_set_conv_nth port_ok_def)

section \<open>The tensor\<close>

lemma tensor_built:
  assumes ok: "adjoints_ok K" and f: "wf K f" and g: "wf K g"
  shows "\<exists>ws. tensor K f g = Inr (built K (domH f @ domH g) (codH f @ codH g) (boxes f @ boxes g) ws
           (enumerate 0 (atoms (spider_types f @ spider_types g))) (Some (offsets f @ offsets g)))
         \<and> set ws \<subseteq> {0..<n_spiders f + n_spiders g}"
proof -
  let ?n = "n_spiders f"
  let ?ts = "spider_types f @ spider_types g"
  define ws where "ws = (take (length (domH f)) (wires f) @ map (\<lambda>i. ?n + i) (take (length (domH g)) (wires g)))
     @ (inner_wires f @ map (\<lambda>i. ?n + i) (inner_wires g))
     @ (drop (length (wires f) - length (codH f)) (wires f)
        @ map (\<lambda>i. ?n + i) (drop (length (wires g) - length (codH g)) (wires g)))"
  have t: "map (tynorm K) ?ts = ?ts"
    using wf_tynorm [OF ok f] wf_tynorm [OF ok g] by simp
  have all: "list_all2 (port_ok K ?ts)
      (port_objs K (domH f @ domH g) (codH f @ codH g) (boxes f @ boxes g)) ws"
    unfolding port_objs_eq ws_def box_objs_append append_assoc n_spiders_def
    by (intro list_all2_appendI list_all2_port_left list_all2_port_right wf_segments [OF f] wf_segments [OF g])
  then have "accepts K (domH f @ domH g) (codH f @ codH g) (boxes f @ boxes g) ws (enumerate 0 (atoms ?ts))"
    unfolding accepts_seq t .
  then have "tensor K f g = Inr (built K (domH f @ domH g) (codH f @ codH g) (boxes f @ boxes g) ws
           (enumerate 0 (atoms ?ts)) (Some (offsets f @ offsets g)))"
    by (simp add: tensor_def Let_def Hypergraph_eq_Inr types_dict_def ws_def)
  moreover have "set ws \<subseteq> {0..<n_spiders f + n_spiders g}"
    using list_all2_port_set [OF all] by (simp add: n_spiders_def)
  ultimately show ?thesis by blast
qed


lemma adjoints_ok_frobenius: "adjoints_ok frobenius"
  by (simp add: adjoints_ok_def frobenius_def tynorm_def)

lemma adjoints_ok_pivotal: "adjoints_ok pivotal"
  by (auto simp: adjoints_ok_def pivotal_def tynorm_def)

lemma from_box_g: "from_box frobenius box_g = Inr hyp_g"
  by code_simp

lemma is_hypergraph_g: "is_hypergraph frobenius hyp_g"
  using from_box_g unfolding from_box_def Let_def by (rule is_hypergraphI)

lemma tensor_f_g: "tensor frobenius hyp_f hyp_g = Inr hyp_f_tensor_g"
  by code_simp

text \<open>
  C7, as amended.  The tensor of two hypergraphs is a hypergraph: its domain, codomain and
  boxes are those of the first followed by those of the second, and its spiders are as many
  as those of both.  For the box \<open>f\<close> from \<open>x\<close> to \<open>y\<close> and the box \<open>g\<close> from \<open>y\<close> to
  \<open>z\<close>, each as a hypergraph, the tensor has 4 spiders and the wires
  \<open>(0, 1, 0, 2, 1, 3, 2, 3)\<close>.
\<close>

theorem tensor_disjoint_union:
  assumes "adjoints_ok K" and "is_hypergraph K f" and "is_hypergraph K g"
  shows "(\<exists>h. tensor K f g = Inr h
              \<and> domH h = domH f @ domH g \<and> codH h = codH f @ codH g
              \<and> boxes h = boxes f @ boxes g
              \<and> n_spiders h = n_spiders f + n_spiders g)
         \<and> from_box frobenius box_f = Inr hyp_f \<and> from_box frobenius box_g = Inr hyp_g
         \<and> tensor frobenius hyp_f hyp_g = Inr hyp_f_tensor_g
         \<and> n_spiders hyp_f_tensor_g = 4 \<and> wires hyp_f_tensor_g = [0, 1, 0, 2, 1, 3, 2, 3]"
proof -
  from tensor_built [OF assms(1) is_hypergraph_wf [OF assms(2)] is_hypergraph_wf [OF assms(3)]]
  obtain ws where t: "tensor K f g = Inr (built K (domH f @ domH g) (codH f @ codH g) (boxes f @ boxes g) ws
           (enumerate 0 (atoms (spider_types f @ spider_types g))) (Some (offsets f @ offsets g)))"
    and ws: "set ws \<subseteq> {0..<n_spiders f + n_spiders g}"
    by blast
  have "fst ` set (enumerate 0 (atoms (spider_types f @ spider_types g))) = {0..<n_spiders f + n_spiders g}"
    by (simp add: fst_set_enumerate atoms_def n_spiders_def)
  then have "length (relabeling_of ws (enumerate 0 (atoms (spider_types f @ spider_types g))))
      = n_spiders f + n_spiders g"
    using ws by (simp add: length_relabeling_of Un_absorb1)
  then have "\<exists>h. tensor K f g = Inr h
              \<and> domH h = domH f @ domH g \<and> codH h = codH f @ codH g
              \<and> boxes h = boxes f @ boxes g
              \<and> n_spiders h = n_spiders f + n_spiders g"
    using t by (simp add: n_spiders_built)
  moreover have "n_spiders hyp_f_tensor_g = 4" "wires hyp_f_tensor_g = [0, 1, 0, 2, 1, 3, 2, 3]"
    by (simp_all add: hyp_f_tensor_g_def n_spiders_def)
  ultimately show ?thesis
    using from_box_f from_box_g tensor_f_g by blast
qed

theorem tensor_disjoint_union_witness:
  "adjoints_ok frobenius \<and> is_hypergraph frobenius hyp_f \<and> is_hypergraph frobenius hyp_g
   \<and> tensor frobenius hyp_f hyp_g = Inr hyp_f_tensor_g
   \<and> domH hyp_f_tensor_g = domH hyp_f @ domH hyp_g
   \<and> codH hyp_f_tensor_g = codH hyp_f @ codH hyp_g
   \<and> boxes hyp_f_tensor_g = boxes hyp_f @ boxes hyp_g
   \<and> n_spiders hyp_f_tensor_g = n_spiders hyp_f + n_spiders hyp_g"
  using tensor_disjoint_union [OF adjoints_ok_frobenius is_hypergraph_f is_hypergraph_g]
    adjoints_ok_frobenius is_hypergraph_f is_hypergraph_g
  by auto

text \<open>
  The claim as stated fails at the boxes it names: for \<open>f\<close> from \<open>x\<close> to \<open>y @ y\<close> and
  \<open>g\<close> from \<open>y @ y\<close> to \<open>z\<close> the tensor has 6 spiders and 12 wires.
\<close>

theorem tensor_disjoint_union_counterexample:
  "from_box frobenius box_f2 = Inr hyp_f2 \<and> from_box frobenius box_g2 = Inr hyp_g2
   \<and> tensor frobenius hyp_f2 hyp_g2 = Inr hyp_f2_tensor_g2
   \<and> n_spiders hyp_f2_tensor_g2 = 6
   \<and> wires hyp_f2_tensor_g2 = [0, 1, 2, 0, 3, 4, 1, 2, 5, 3, 4, 5]
   \<and> n_spiders hyp_f2_tensor_g2 \<noteq> 4
   \<and> wires hyp_f2_tensor_g2 \<noteq> [0, 1, 0, 2, 1, 3, 2, 3]"
proof -
  have "from_box frobenius box_f2 = Inr hyp_f2" by code_simp
  moreover have "from_box frobenius box_g2 = Inr hyp_g2" by code_simp
  moreover have "tensor frobenius hyp_f2 hyp_g2 = Inr hyp_f2_tensor_g2" by code_simp
  ultimately show ?thesis by (simp add: hyp_f2_tensor_g2_def n_spiders_def)
qed

section \<open>Spider wires of a hypergraph\<close>

lemma wf_ports_length: "wf K h \<Longrightarrow> length (wires h) = length (ports K h)"
  using list_all2_lengthD [of "port_ok K (spider_types h)" "port_objs K (domH h) (codH h) (boxes h)" "wires h"]
  by (simp add: wf_def ports_def length_ports_of)

lemma wf_wires_range: "wf K h \<Longrightarrow> \<forall>w\<in>set (wires h). w < n_spiders h"
  using list_all2_port_set [of K "spider_types h" "port_objs K (domH h) (codH h) (boxes h)" "wires h"]
  by (auto simp: wf_def n_spiders_def)

lemma not_is_sink: "\<not> is_sink k \<longleftrightarrow> k = Input \<or> k = Cod"
  by (cases k) (simp_all add: is_sink_def)

lemma spider_wires_ports:
  assumes "wf K h"
  shows "spider_wires K h = map (\<lambda>s. (source_ports K h s, sink_ports K h s)) [0..<n_spiders h]"
proof -
  have "acc (wires h) (map kind (ports K h)) (length (wires h)) s = (source_ports K h s, sink_ports K h s)" for s
    using wf_ports_length [OF assms]
    by (auto simp: acc_def source_ports_def sink_ports_def not_is_sink is_sink_def intro: kind.exhaust)
  then show ?thesis
    using spider_wires_acc [OF wf_ports_length [OF assms] wf_wires_range [OF assms]] by simp
qed

lemma monogamous_loop_iff:
  "monogamous_loop xs \<longleftrightarrow> (\<forall>(a, b)\<in>set xs. card a = card b \<and> (card a + card b = 0 \<or> card a + card b = 2))"
  by (induction xs rule: monogamous_loop.induct) auto

text \<open>
  C6.  A hypergraph is monogamous exactly when every spider has as many source ports as
  sink ports and both together are zero or two.
\<close>

theorem is_monogamous_iff:
  assumes "is_hypergraph K h"
  shows "is_monogamous K h \<longleftrightarrow>
         (\<forall>s<n_spiders h. card (source_ports K h s) = card (sink_ports K h s)
            \<and> (card (source_ports K h s) + card (sink_ports K h s) = 0
               \<or> card (source_ports K h s) + card (sink_ports K h s) = 2))"
  unfolding is_monogamous_def spider_wires_ports [OF is_hypergraph_wf [OF assms]] monogamous_loop_iff
  by auto

theorem is_monogamous_iff_witness:
  "is_hypergraph frobenius hyp_f \<and> is_monogamous frobenius hyp_f
   \<and> card (source_ports frobenius hyp_f 1) = card (sink_ports frobenius hyp_f 1)
   \<and> card (source_ports frobenius hyp_f 1) + card (sink_ports frobenius hyp_f 1) = 2"
proof -
  have m: "is_monogamous frobenius hyp_f" by code_simp
  have "1 < n_spiders hyp_f" by (simp add: n_spiders_def hyp_f_def)
  with m is_monogamous_iff [OF is_hypergraph_f]
  have "card (source_ports frobenius hyp_f 1) = card (sink_ports frobenius hyp_f 1)
      \<and> (card (source_ports frobenius hyp_f 1) + card (sink_ports frobenius hyp_f 1) = 0
          \<or> card (source_ports frobenius hyp_f 1) + card (sink_ports frobenius hyp_f 1) = 2)"
    by blast
  moreover have "2 \<in> source_ports frobenius hyp_f 1"
    by (simp add: source_ports_def ports_def ports_of_def hyp_f_def nodes_of_def frobenius_def box_f_def)
  moreover have "finite (source_ports frobenius hyp_f 1)" by (simp add: source_ports_def)
  ultimately show ?thesis using m is_hypergraph_f
    by (metis add_is_0 card_0_eq empty_iff) 
qed

section \<open>The bijection of a bijective hypergraph\<close>

lemma fold_append_concat: "fold (\<lambda>x acc. acc @ f x) xs a = a @ concat (map f xs)"
  by (induction xs arbitrary: a) auto

lemma enumerate_nth: "enumerate 0 xs = map (\<lambda>k. (k, xs ! k)) [0..<length xs]"
  by (rule nth_equalityI) (simp_all add: nth_enumerate_eq)

lemma bijection_fold:
  "fold (bijection_step W) (enumerate 0 W) []
   = concat (map (\<lambda>i. if later W i then [(i, target W i), (target W i, i)] else []) [0..<length W])"
proof -
  have "bijection_step W \<circ> (\<lambda>k. (k, W ! k))
      = (\<lambda>i acc. acc @ (if later W i then [(i, target W i), (target W i, i)] else []))"
    by (intro ext) (simp add: bijection_step_def later_def target_def)
  then show ?thesis
    by (simp add: enumerate_nth fold_map fold_append_concat)
qed

lemma count_list_append [simp]: "count_list (xs @ ys) x = count_list xs x + count_list ys x"
  by (induction xs) auto

lemma count_list_split:
  "i < length W \<Longrightarrow> count_list W x = count_list (take i W) x + (if W ! i = x then 1 else 0) + count_list (drop (Suc i) W) x"
  using arg_cong [OF id_take_nth_drop [of i W], of "\<lambda>l. count_list l x"] by simp

lemma count_list_pos: "x \<in> set xs \<Longrightarrow> 0 < count_list xs x"
  using count_list_0_iff [of xs x] by simp

lemma index_of_first:
  assumes "i < length xs" "xs ! i \<notin> set (take i xs)"
  shows "index_of xs (xs ! i) = i"
proof -
  have "xs = take i xs @ (xs ! i # drop (Suc i) xs)" using assms(1) by (rule id_take_nth_drop)
  then have "index_of xs (xs ! i) = index_of (take i xs @ (xs ! i # drop (Suc i) xs)) (xs ! i)" by simp
  also have "\<dots> = i" using assms by (simp add: index_of_append_right)
  finally show ?thesis .
qed

lemma index_of_le: "k < length xs \<Longrightarrow> xs ! k = x \<Longrightarrow> index_of xs x \<le> k"
proof (induction xs arbitrary: k)
  case Nil then show ?case by simp
next
  case (Cons y ys)
  then show ?case by (cases k) auto
qed

lemma later_target:
  assumes i: "i < length W" and l: "later W i"
  shows "i < target W i" "target W i < length W" "W ! target W i = W ! i"
proof -
  let ?d = "drop (Suc i) W"
  have m: "W ! i \<in> set ?d" using l by (simp add: later_def)
  have lt: "index_of ?d (W ! i) < length ?d" using m by (rule index_of_less)
  show "i < target W i" by (simp add: target_def)
  show "target W i < length W" using lt by (simp add: target_def)
  have "?d ! index_of ?d (W ! i) = W ! i" using m by simp
  then show "W ! target W i = W ! i"
    using lt by (simp add: target_def add.commute)
qed

lemma two_occurrences:
  assumes "a < b" "b < length W" "W ! a = x" "W ! b = x"
  shows "2 \<le> count_list W x"
proof -
  have "x \<in> set (take b W)" using assms by (auto simp: in_set_conv_nth intro!: exI [of _ a])
  then have "0 < count_list (take b W) x" by (rule count_list_pos)
  then show ?thesis using count_list_split [OF assms(2), of x] assms(4) by simp
qed

lemma later_facts:
  assumes i: "i < length W" and c: "count_list W (W ! i) = 2" and l: "later W i"
  shows "\<not> later W (target W i)" "index_of W (W ! target W i) = i"
proof -
  let ?j = "target W i"
  note t = later_target [OF i l]
  have "0 < count_list (drop (Suc i) W) (W ! i)" using l by (simp add: later_def count_list_pos)
  then have "count_list (take i W) (W ! i) = 0" using count_list_split [OF i, of "W ! i"] c by simp
  then have "W ! i \<notin> set (take i W)" by (simp add: count_list_0_iff)
  then show "index_of W (W ! ?j) = i" using index_of_first [OF i] t(3) by simp
  have "W ! i \<in> set (take ?j W)" using t i by (auto simp: in_set_conv_nth intro!: exI [of _ i])
  then have "0 < count_list (take ?j W) (W ! ?j)" using t(3) by (simp add: count_list_pos)
  then have "count_list (drop (Suc ?j) W) (W ! ?j) = 0"
    using count_list_split [OF t(2), of "W ! ?j"] c t(3) by simp
  then show "\<not> later W ?j" by (simp add: later_def count_list_0_iff)
qed

lemma not_later_facts:
  assumes i: "i < length W" and c: "count_list W (W ! i) = 2" and l: "\<not> later W i"
  shows "index_of W (W ! i) < length W" "later W (index_of W (W ! i))" "target W (index_of W (W ! i)) = i"
proof -
  let ?j = "index_of W (W ! i)"
  have "count_list (drop (Suc i) W) (W ! i) = 0" using l by (simp add: later_def count_list_0_iff)
  then have c1: "count_list (take i W) (W ! i) = 1" using count_list_split [OF i, of "W ! i"] c by simp
  then have m: "W ! i \<in> set (take i W)" using count_list_0_iff [of "take i W" "W ! i"] by simp
  have "?j = index_of (take i W @ drop i W) (W ! i)" by simp
  also have "\<dots> = index_of (take i W) (W ! i)" using m by (rule index_of_append_left)
  finally have ji: "?j < i" using index_of_less [OF m] by simp
  then show jl: "?j < length W" using i by simp
  have wj: "W ! ?j = W ! i" using i by simp
  have "drop (Suc ?j) W ! (i - Suc ?j) = W ! i" using ji i by simp
  moreover have il: "i - Suc ?j < length (drop (Suc ?j) W)" using ji i by simp
  ultimately have mem: "W ! i \<in> set (drop (Suc ?j) W)" by (metis nth_mem)
  then show lj: "later W ?j" by (simp add: later_def wj)
  have le: "target W ?j \<le> i"
    using index_of_le [OF il, of "W ! i"] ji i by (simp add: target_def wj)
  note t = later_target [OF jl lj]
  show "target W ?j = i"
  proof (rule ccontr)
    assume "target W ?j \<noteq> i"
    then have lt: "target W ?j < i" using le by simp
    have "2 \<le> count_list (take i W) (W ! i)"
      using t lt i wj by (intro two_occurrences [of ?j "target W ?j"]) simp_all
    then show False using c1 by simp
  qed
qed


lemma bijective_count:
  assumes "wf K h" "is_bijective h" "i < length (wires h)"
  shows "count_list (wires h) (wires h ! i) = 2"
proof -
  have m: "wires h ! i \<in> set (wires h)" using assms(3) by simp
  then have "wires h ! i < n_spiders h" using wf_wires_range [OF assms(1)] by blast
  then have "count_list (wires h) (wires h ! i) = 0 \<or> count_list (wires h) (wires h ! i) = 2"
    using assms(2) by (simp add: is_bijective_def list_all_iff)
  then show ?thesis using count_list_pos [OF m] by simp
qed

lemma bijection_pairs:
  assumes c: "\<forall>i<length W. count_list W (W ! i) = 2"
  shows "fst ` set (pairs W) = {0..<length W}"
    and "\<forall>k<length W. dict_get (pairs W) k = Some (partner W k)"
    and "\<forall>i<length W. partner W i < length W \<and> partner W i \<noteq> i \<and> partner W (partner W i) = i
            \<and> W ! partner W i = W ! i"
proof -
  have mem: "(k, v) \<in> set (pairs W) \<longleftrightarrow>
      (\<exists>i<length W. later W i \<and> (k = i \<and> v = target W i \<or> k = target W i \<and> v = i))" for k v
    by (auto simp: pairs_def)
  have p: "partner W i < length W \<and> partner W i \<noteq> i \<and> partner W (partner W i) = i \<and> W ! partner W i = W ! i"
    if i: "i < length W" for i
  proof (cases "later W i")
    case True
    from c i have ci: "count_list W (W ! i) = 2" by blast
    note t = later_target [OF i True] and f = later_facts [OF i ci True]
    show ?thesis using True t f by (simp add: partner_def)
  next
    case False
    from c i have ci: "count_list W (W ! i) = 2" by blast
    note f = not_later_facts [OF i ci False]
    have "index_of W (W ! i) \<noteq> i" using f(2) False by auto
    moreover have "W ! index_of W (W ! i) = W ! i" using i by simp
    ultimately show ?thesis using False f by (simp add: partner_def)
  qed
  then show "\<forall>i<length W. partner W i < length W \<and> partner W i \<noteq> i \<and> partner W (partner W i) = i
            \<and> W ! partner W i = W ! i"
    by blast
  have val: "v = partner W k" if "(k, v) \<in> set (pairs W)" for k v
  proof -
    from that obtain i where i: "i < length W" "later W i"
      and kv: "k = i \<and> v = target W i \<or> k = target W i \<and> v = i"
      unfolding mem by blast
    from c i have ci: "count_list W (W ! i) = 2" by blast
    note f = later_facts [OF i(1) ci i(2)]
    from kv show ?thesis using i f by (auto simp: partner_def)
  qed
  have has: "(k, partner W k) \<in> set (pairs W)" if k: "k < length W" for k
  proof (cases "later W k")
    case True
    then show ?thesis unfolding mem using k by (auto simp: partner_def)
  next
    case False
    from c k have ck: "count_list W (W ! k) = 2" by blast
    note f = not_later_facts [OF k ck False]
    show ?thesis unfolding mem using f False
      by (intro exI [of _ "index_of W (W ! k)"]) (simp add: partner_def)
  qed
  show keys: "fst ` set (pairs W) = {0..<length W}"
  proof (intro equalityI subsetI)
    fix k assume "k \<in> fst ` set (pairs W)"
    then obtain v where "(k, v) \<in> set (pairs W)" by auto
    then show "k \<in> {0..<length W}" unfolding mem using later_target(2) by auto
  next
    fix k assume "k \<in> {0..<length W}"
    then have "(k, partner W k) \<in> set (pairs W)" using has by simp
    then show "k \<in> fst ` set (pairs W)" by force
  qed
  show "\<forall>k<length W. dict_get (pairs W) k = Some (partner W k)"
  proof (intro allI impI)
    fix k assume k: "k < length W"
    have "k \<in> fst ` set (rev (pairs W))" using keys k by simp
    then obtain v where v: "map_of (rev (pairs W)) k = Some v"
      using map_of_eq_None_iff [of "rev (pairs W)" k] by (cases "map_of (rev (pairs W)) k") simp_all
    then have "(k, v) \<in> set (pairs W)" using map_of_SomeD [OF v] by simp
    then show "dict_get (pairs W) k = Some (partner W k)" using val v by (simp add: dict_get_def)
  qed
qed

text \<open>
  C8.  The \<^verbatim>\<open>bijection\<close> of a hypergraph that is not bijective raises the error of
  the property, a \<^verbatim>\<open>ValueError\<close>.  The bijection of a bijective hypergraph is returned:
  it has an entry for every port, the entry of a port is another port on the same spider,
  and the entry of that port is the port again.
\<close>

theorem bijection_spec:
  assumes "is_hypergraph K h"
  shows "(\<not> is_bijective h \<longrightarrow> bijection h = Inl ValueError)
       \<and> (is_bijective h \<longrightarrow>
            (\<exists>bij. bijection h = Inr bij \<and> length bij = length (ports K h)
               \<and> (\<forall>i<length (ports K h). bij ! i < length (ports K h) \<and> bij ! i \<noteq> i
                     \<and> bij ! (bij ! i) = i \<and> wires h ! (bij ! i) = wires h ! i)))"
proof (intro conjI impI)
  assume "\<not> is_bijective h"
  then show "bijection h = Inl ValueError" by (simp add: bijection_def)
next
  assume b: "is_bijective h"
  note w = is_hypergraph_wf [OF assms]
  let ?W = "wires h"
  define res where "res = pairs ?W"
  have c: "\<forall>i<length ?W. count_list ?W (?W ! i) = 2"
    using bijective_count [OF w b] by blast
  note facts = bijection_pairs [OF c, folded res_def]
  have "sort (dict_keys res) = [0..<length ?W]"
    by (rule sorted_distinct_set_unique) (simp_all add: dict_keys_def facts(1))
  then have "bijection h = Inr (map (\<lambda>k. the (dict_get res k)) [0..<length ?W])"
    using b by (simp add: bijection_def bijection_fold res_def pairs_def)
  also have "map (\<lambda>k. the (dict_get res k)) [0..<length ?W] = map (partner ?W) [0..<length ?W]"
    using facts(2) by (intro map_cong) simp_all
  finally have "bijection h = Inr (map (partner ?W) [0..<length ?W])" .
  then show "\<exists>bij. bijection h = Inr bij \<and> length bij = length (ports K h)
               \<and> (\<forall>i<length (ports K h). bij ! i < length (ports K h) \<and> bij ! i \<noteq> i
                     \<and> bij ! (bij ! i) = i \<and> wires h ! (bij ! i) = wires h ! i)"
    using facts(3) wf_ports_length [OF w]
    by (intro exI [of _ "map (partner ?W) [0..<length ?W]"]) simp
qed

theorem bijection_spec_witness:
  "is_hypergraph frobenius hyp_f \<and> is_bijective hyp_f \<and> bijection hyp_f = Inr [1, 0, 3, 2]
   \<and> length [1, 0, 3, 2 :: nat] = length (ports frobenius hyp_f)
   \<and> [1, 0, 3, 2 :: nat] ! ([1, 0, 3, 2] ! 2) = 2
   \<and> wires hyp_f ! ([1, 0, 3, 2] ! 2) = wires hyp_f ! 2"
proof -
  have b: "is_bijective hyp_f" by code_simp
  have e: "bijection hyp_f = Inr [1, 0, 3, 2]" by code_simp
  have l: "2 < length (ports frobenius hyp_f)" by code_simp
  from bijection_spec [OF is_hypergraph_f] b e
  have "length [1, 0, 3, 2 :: nat] = length (ports frobenius hyp_f)
     \<and> (\<forall>i<length (ports frobenius hyp_f). [1, 0, 3, 2 :: nat] ! i < length (ports frobenius hyp_f) \<and> [1, 0, 3, 2 :: nat] ! i \<noteq> i
                     \<and> [1, 0, 3, 2 :: nat] ! ([1, 0, 3, 2] ! i) = i \<and> wires hyp_f ! ([1, 0, 3, 2] ! i) = wires hyp_f ! i)"
    by auto
  with l have "length [1, 0, 3, 2 :: nat] = length (ports frobenius hyp_f)
     \<and> [1, 0, 3, 2 :: nat] ! ([1, 0, 3, 2] ! 2) = 2 \<and> wires hyp_f ! ([1, 0, 3, 2] ! 2) = wires hyp_f ! 2"
    by blast
  then show ?thesis using is_hypergraph_f b e by blast
qed

text \<open>
  The claim as stated names an error class of its own.  On the hypergraph
  \<^verbatim>\<open>spiders(1, 2, x)\<close>, which is not bijective, the property raises the built-in
  \<^verbatim>\<open>ValueError\<close>, the very error that the constructor raises for wires of the wrong
  length.
\<close>

theorem bijection_spec_counterexample:
  "spiders frobenius 1 2 [''x''] = Inr hyp_copy
   \<and> \<not> is_bijective hyp_copy
   \<and> bijection hyp_copy = Inl ValueError
   \<and> Hypergraph frobenius [''x''] [''x''] [] [0] NoTypes None = Inl ValueError"
proof -
  have "spiders frobenius 1 2 [''x''] = Inr hyp_copy" by code_simp
  moreover have "\<not> is_bijective hyp_copy" by code_simp
  moreover have "bijection hyp_copy = Inl ValueError" by code_simp
  moreover have "Hypergraph frobenius [''x''] [''x''] [] [0] NoTypes None = Inl ValueError"
    by code_simp
  ultimately show ?thesis by blast
qed

section \<open>The wires of the boxes\<close>

lemma slice_drop: "slice (i + a) (i + b) ws = slice a b (drop i ws)"
  by (simp add: slice_def add.commute)

lemma box_wires_from_drop: "box_wires_from K i bs ws = box_wires_from K 0 bs (drop i ws)"
proof (induction bs arbitrary: i ws)
  case Nil then show ?case by simp
next
  case (Cons b bs)
  let ?n = "length (bdom K b @ bcod K b)"
  have 1: "box_wires_from K (i + ?n) bs ws = box_wires_from K 0 bs (drop (i + ?n) ws)"
    by (rule Cons.IH)
  have 2: "box_wires_from K ?n bs (drop i ws) = box_wires_from K 0 bs (drop ?n (drop i ws))"
    by (rule Cons.IH)
  have s1: "slice i (i + length (bdom K b)) ws = slice 0 (length (bdom K b)) (drop i ws)"
    using slice_drop [of i 0 "length (bdom K b)" ws] by simp
  have s2: "slice (i + length (bdom K b)) (i + ?n) ws = slice (length (bdom K b)) ?n (drop i ws)"
    by (rule slice_drop)
  show ?case
    using 1 2 s1 s2 by (simp add: add.commute)
qed

lemma flat_simps [simp]:
  "flat [] = []" "flat ((d, c) # segs) = d @ c @ flat segs" "flat (xs @ ys) = flat xs @ flat ys"
  by (simp_all add: flat_def)

lemma box_wires_from_flat:
  assumes "shaped K bs segs"
  shows "box_wires_from K 0 bs (flat segs @ rest) = segs"
  using assms unfolding shaped_def
proof (induction bs segs rule: list_all2_induct)
  case Nil then show ?case by simp
next
  case (Cons b bs seg segs)
  obtain d c where seg: "seg = (d, c)" by (cases seg)
  have l: "length d = length (bdom K b)" "length c = length (bcod K b)"
    using Cons.hyps(1) seg by simp_all
  have "box_wires_from K (length (bdom K b @ bcod K b)) bs (flat (seg # segs) @ rest)
      = box_wires_from K 0 bs (flat segs @ rest)"
    using box_wires_from_drop [of K "length (bdom K b @ bcod K b)" bs "flat (seg # segs) @ rest"]
    by (simp add: seg l)
  then show ?case using Cons.IH by (simp add: seg l slice_def)
qed

lemma shaped_box_wires:
  assumes "length (box_objs K bs) \<le> length ws"
  shows "shaped K bs (box_wires_from K 0 bs ws)"
    and "flat (box_wires_from K 0 bs ws) = take (length (box_objs K bs)) ws"
proof -
  have "shaped K bs (box_wires_from K 0 bs ws)
      \<and> flat (box_wires_from K 0 bs ws) = take (length (box_objs K bs)) ws"
    using assms
  proof (induction bs arbitrary: ws)
    case Nil then show ?case by (simp add: shaped_def box_objs_def)
  next
    case (Cons b bs)
    let ?a = "length (bdom K b)" and ?c = "length (bcod K b)"
    have len: "?a + ?c + length (box_objs K bs) \<le> length ws"
      using Cons.prems by (simp add: box_objs_def)
    then have "length (box_objs K bs) \<le> length (drop (?a + ?c) ws)" by simp
    then have ih: "shaped K bs (box_wires_from K 0 bs (drop (?a + ?c) ws))"
      "flat (box_wires_from K 0 bs (drop (?a + ?c) ws)) = take (length (box_objs K bs)) (drop (?a + ?c) ws)"
      using Cons.IH by blast+
    have r: "box_wires_from K (?a + ?c) bs ws = box_wires_from K 0 bs (drop (?a + ?c) ws)"
      by (rule box_wires_from_drop)
    have t: "take ?a ws @ take ?c (drop ?a ws) @ take (length (box_objs K bs)) (drop (?a + ?c) ws)
        = take (?a + ?c + length (box_objs K bs)) ws"
      by (simp add: take_add)
    show ?case
      using ih len t by (simp add: r shaped_def slice_def box_objs_def add.assoc)
  qed
  then show "shaped K bs (box_wires_from K 0 bs ws)"
    and "flat (box_wires_from K 0 bs ws) = take (length (box_objs K bs)) ws"
    by simp_all
qed

lemma box_wires_from_map:
  "box_wires_from K i bs (map f ws) = map (\<lambda>(d, c). (map f d, map f c)) (box_wires_from K i bs ws)"
  by (induction bs arbitrary: i) (simp_all add: slice_def take_map drop_map)

lemma box_wires_inner:
  assumes "wf K h"
  shows "box_wires K h = box_wires_from K 0 (boxes h) (inner_wires h)"
    and "shaped K (boxes h) (box_wires K h)"
    and "flat (box_wires K h) = inner_wires h"
proof -
  let ?d = "drop (length (domH h)) (wires h)"
  let ?n = "length (box_objs K (boxes h))"
  note len = wf_length [OF assms]
  have bw: "box_wires K h = box_wires_from K 0 (boxes h) ?d"
    unfolding box_wires_def by (rule box_wires_from_drop)
  have l: "?n \<le> length ?d" using len by simp
  have inner: "inner_wires h = take ?n ?d"
    using len by (simp add: inner_wires_eq slice_def)
  show s: "shaped K (boxes h) (box_wires K h)" unfolding bw by (rule shaped_box_wires(1) [OF l])
  show f: "flat (box_wires K h) = inner_wires h"
    unfolding bw inner by (rule shaped_box_wires(2) [OF l])
  show "box_wires K h = box_wires_from K 0 (boxes h) (inner_wires h)"
    using box_wires_from_flat [OF s, of "[]"] f by simp
qed

section \<open>Rebuilding a hypergraph from relabelled wires\<close>

lemma wf_canonical: "wf K h \<Longrightarrow> canonical (wires h)"
  by (simp add: wf_def)

lemma canonical_set: "canonical ws \<Longrightarrow> set ws = {0..<card (set ws)}"
  using canonical_prefix [of ws "length ws"] by simp

lemma canonical_uniq: "canonical ws \<Longrightarrow> uniq ws = [0..<card (set ws)]"
  by (simp add: canonical_def length_uniq)

lemma wf_card_le: "wf K h \<Longrightarrow> card (set (wires h)) \<le> n_spiders h"
proof -
  assume w: "wf K h"
  have "set (wires h) \<subseteq> {0..<n_spiders h}" using wf_wires_range [OF w] by auto
  then have "card (set (wires h)) \<le> card {0..<n_spiders h}" by (intro card_mono) simp_all
  then show ?thesis by simp
qed

lemma sorted_map_upt:
  assumes "\<forall>s t. k \<le> s \<and> s < t \<and> t < n \<longrightarrow> f s < f t"
  shows "sorted (map f [k..<n])" "distinct (map f [k..<n])"
proof -
  have "sorted_wrt (\<lambda>a b. f a < f b) [k..<n]"
    using assms by (simp add: sorted_wrt_iff_nth_less)
  then have "sorted_wrt (<) (map f [k..<n])" by (simp add: sorted_wrt_map)
  then show "sorted (map f [k..<n])" "distinct (map f [k..<n])"
    using strict_sorted_iff [of "map f [k..<n]"] by blast+
qed

lemma rebuild:
  assumes ok: "adjoints_ok K" and w: "wf K h"
    and inj: "inj_on f {0..<n_spiders h}"
    and keys: "fst ` set d = f ` {0..<n_spiders h}"
    and get: "\<forall>s<n_spiders h. dict_get d (f s) = Some [spider_types h ! s]"
    and mono: "\<forall>s t. card (set (wires h)) \<le> s \<and> s < t \<and> t < n_spiders h \<longrightarrow> f s < f t"
  shows "built K (domH h) (codH h) (boxes h) (map f (wires h)) d (Some (offsets h)) = h"
proof -
  let ?W = "wires h" and ?n = "n_spiders h"
  define k where "k = card (set ?W)"
  have c: "canonical ?W" by (rule wf_canonical [OF w])
  have sW: "set ?W = {0..<k}" unfolding k_def by (rule canonical_set [OF c])
  have uW: "uniq ?W = [0..<k]" unfolding k_def by (rule canonical_uniq [OF c])
  have kn: "k \<le> ?n" unfolding k_def by (rule wf_card_le [OF w])
  have injW: "inj_on f (set ?W)" unfolding sW using inj by (rule inj_on_subset) (use kn in auto)
  have wires: "map (index_of (uniq (map f ?W))) (map f ?W) = ?W"
    using relabel_inj [OF injW] relabel_canonical [OF c] by simp
  have "sort (filter (\<lambda>i. i \<notin> set (map f ?W)) (dict_keys d)) = map f [k..<?n]"
  proof (rule sorted_distinct_set_unique)
    show "sorted (map f [k..<?n])" "distinct (map f [k..<?n])"
      using sorted_map_upt [of k ?n f] mono unfolding k_def by blast+
    have "{0..<?n} - {0..<k} = {k..<?n}" by auto
    then have "f ` {0..<?n} - f ` {0..<k} = f ` {k..<?n}"
      using inj_on_image_set_diff [OF inj, of "{0..<?n}" "{0..<k}"] kn by simp
    then show "set (sort (filter (\<lambda>i. i \<notin> set (map f ?W)) (dict_keys d))) = set (map f [k..<?n])"
      using keys by (auto simp: dict_keys_def sW)
  qed (simp_all add: dict_keys_def)
  then have rl: "relabeling_of (map f ?W) d = map f [0..<?n]"
    using kn by (simp add: relabeling_of_eq uniq_map [OF injW] uW upt_split [symmetric] del: set_map)
  have "map (\<lambda>s. tynorm K (hd (the (dict_get d s)))) (map f [0..<?n]) = map (\<lambda>s. spider_types h ! s) [0..<?n]"
    using get wf_tynorm [OF ok w] 
    by (auto simp: n_spiders_def intro!: nth_equalityI) (metis nth_map)
  also have "\<dots> = spider_types h" by (simp add: n_spiders_def map_nth)
  finally have types: "map (\<lambda>s. tynorm K (hd (the (dict_get d s)))) (relabeling_of (map f ?W) d) = spider_types h"
    unfolding rl .
  have offs: "offsets_of (boxes h) (Some (offsets h)) = offsets h"
    using w by (auto simp: wf_def offsets_of_def)
  show ?thesis
    unfolding built_def wires types offs by simp
qed

section \<open>Structural equality is reflexive\<close>

lemma is_isomorphic_refl: "is_isomorphic G G"
  unfolding is_isomorphic_def by (rule exI [of _ id]) simp

lemma hypergraph_eq_refl: "hypergraph_eq K h h"
  by (simp add: hypergraph_eq_def is_parallel_def is_isomorphic_refl)

section \<open>The dagger\<close>

lemma typed_segments:
  assumes "shaped K bs segs" "list_all2 P (box_objs K bs) (flat segs)"
  shows "list_all2 (\<lambda>b (d, c). list_all2 P (bdom K b) d \<and> list_all2 P (bcod K b) c) bs segs"
  using assms unfolding shaped_def
proof (induction bs segs rule: list_all2_induct)
  case Nil then show ?case by simp
next
  case (Cons b bs seg segs)
  obtain d c where seg: "seg = (d, c)" by (cases seg)
  have l: "length d = length (bdom K b)" "length c = length (bcod K b)"
    using Cons.hyps(1) seg by simp_all
  have "list_all2 P (bdom K b @ bcod K b @ box_objs K bs) (d @ c @ flat segs)"
    using Cons.prems by (simp add: seg box_objs_def)
  then have "list_all2 P (bdom K b) d \<and> list_all2 P (bcod K b) c \<and> list_all2 P (box_objs K bs) (flat segs)"
    using l by (simp add: list_all2_append)
  then show ?case using Cons.IH by (simp add: seg)
qed

lemma typed_dagger_segments:
  assumes dg: "daggers_ok K"
    and "list_all2 (\<lambda>b (d, c). list_all2 P (bdom K b) d \<and> list_all2 P (bcod K b) c) bs segs"
  shows "list_all2 P (box_objs K (map (bdagger K) bs)) (flat (map prod.swap segs))"
    and "shaped K (map (bdagger K) bs) (map prod.swap segs)"
proof -
  have "list_all2 P (box_objs K (map (bdagger K) bs)) (flat (map prod.swap segs))
      \<and> shaped K (map (bdagger K) bs) (map prod.swap segs)"
    using assms(2)
  proof (induction bs segs rule: list_all2_induct)
    case Nil then show ?case by (simp add: box_objs_def shaped_def)
  next
    case (Cons b bs seg segs)
    obtain d c where seg: "seg = (d, c)" by (cases seg)
    have t: "list_all2 P (bdom K b) d" "list_all2 P (bcod K b) c" using Cons.hyps(1) seg by simp_all
    have e: "bdom K (bdagger K b) = bcod K b" "bcod K (bdagger K b) = bdom K b"
      using dg by (simp_all add: daggers_ok_def)
    have "list_all2 P (bcod K b @ bdom K b @ box_objs K (map (bdagger K) bs)) (c @ d @ flat (map prod.swap segs))"
      using t Cons.IH by (intro list_all2_appendI) simp_all
    then show ?case
      using Cons.IH t by (simp add: seg box_objs_def e shaped_def list_all2_lengthD)
  qed
  then show "list_all2 P (box_objs K (map (bdagger K) bs)) (flat (map prod.swap segs))"
    and "shaped K (map (bdagger K) bs) (map prod.swap segs)"
    by simp_all
qed

lemma wf_typed_boxes:
  assumes "wf K h"
  shows "list_all2 (\<lambda>b (d, c). list_all2 (port_ok K (spider_types h)) (bdom K b) d
                              \<and> list_all2 (port_ok K (spider_types h)) (bcod K b) c)
           (boxes h) (box_wires K h)"
  using typed_segments [OF box_wires_inner(2) [OF assms]] wf_segments(2) [OF assms]
  by (simp add: box_wires_inner(3) [OF assms])

lemma dagger_eq: "dagger K h = Hypergraph K (codH h) (domH h) (map (bdagger K) (rev (boxes h)))
   (dagger_wires K h) (TypeSeq (atoms (spider_types h))) (Some (rev (offsets h)))"
proof -
  have "concat (map (\<lambda>(dom_wires, cod_wires). cod_wires @ dom_wires) segs) = flat (map prod.swap segs)" for segs :: "(nat list \<times> nat list) list"
    by (induction segs) auto
  then show ?thesis by (simp add: dagger_def dagger_wires_def Let_def)
qed

lemma dagger_built:
  assumes ok: "adjoints_ok K" and dg: "daggers_ok K" and w: "wf K h"
  shows "dagger K h = Inr (built K (codH h) (domH h) (map (bdagger K) (rev (boxes h)))
           (dagger_wires K h) (enumerate 0 (atoms (spider_types h))) (Some (rev (offsets h))))"
proof -
  have "list_all2 (port_ok K (spider_types h))
     (codH h @ box_objs K (map (bdagger K) (rev (boxes h))) @ domH h) (dagger_wires K h)"
    unfolding dagger_wires_def
    using wf_segments [OF w] typed_dagger_segments(1) [OF dg list_all2_rev [THEN iffD2, OF wf_typed_boxes [OF w]]]
    by (intro list_all2_appendI) (simp_all add: rev_map)
  then have "accepts K (codH h) (domH h) (map (bdagger K) (rev (boxes h))) (dagger_wires K h)
       (enumerate 0 (atoms (spider_types h)))"
    unfolding accepts_seq wf_tynorm [OF ok w] port_objs_eq .
  then show ?thesis
    by (simp add: dagger_eq Hypergraph_eq_Inr types_dict_def)
qed

section \<open>The dagger of the dagger\<close>


lemma flat_map_map: "flat (map (\<lambda>(d, c). (map f d, map f c)) segs) = map f (flat segs)"
  by (induction segs) (simp_all add: split_beta flat_def)

lemma set_flat: "set (flat segs) = (\<Union>s\<in>set segs. set (fst s) \<union> set (snd s))"
  by (induction segs) (simp_all add: flat_def split_beta Un_assoc)

lemma set_flat_swap: "set (flat (map prod.swap segs)) = set (flat segs)"
  unfolding set_flat by (simp add: Un_commute)

lemma set_flat_rev: "set (flat (rev segs)) = set (flat segs)"
  unfolding set_flat by simp

lemma swap_map_swap:
  "map prod.swap (map (\<lambda>(d, c). (map f d, map f c)) (map prod.swap segs))
   = map (\<lambda>(d, c). (map f d, map f c)) segs"
  by (induction segs) auto

lemma set_dagger_wires:
  assumes "wf K h"
  shows "set (dagger_wires K h) = set (wires h)"
proof -
  have "set (wires h) = set (take (length (domH h)) (wires h)) \<union> set (inner_wires h)
           \<union> set (drop (length (wires h) - length (codH h)) (wires h))"
    using arg_cong [OF wf_split(1) [OF assms], of set] by (simp add: Un_assoc)
  moreover have "set (flat (map prod.swap (rev (box_wires K h)))) = set (inner_wires h)"
    by (simp only: set_flat_swap set_flat_rev box_wires_inner(3) [OF assms])
  ultimately show ?thesis
    unfolding dagger_wires_def set_append by blast
qed

lemma length_dagger_wires:
  assumes "wf K h"
  shows "length (dagger_wires K h) = length (wires h)"
proof -
  have "length (flat (map prod.swap segs)) = length (flat segs)" for segs :: "(nat list \<times> nat list) list"
    by (induction segs) auto
  moreover have "length (flat (rev segs)) = length (flat segs)" for segs :: "(nat list \<times> nat list) list"
    by (induction segs) auto
  ultimately have "length (flat (map prod.swap (rev (box_wires K h)))) = length (inner_wires h)"
    by (simp add: box_wires_inner(3) [OF assms])
  then show ?thesis
    using wf_split(2,3,4) [OF assms] wf_length [OF assms] by (simp add: dagger_wires_def)
qed

lemma relabeling_seq:
  assumes "set ws = {0..<k}" "k \<le> length ts"
  shows "relabeling_of ws (enumerate 0 (atoms ts)) = uniq ws @ [k..<length ts]"
proof -
  have l: "length (atoms ts) = length ts" by (simp add: atoms_def)
  have "sort (filter (\<lambda>i. i \<notin> set ws) (dict_keys (enumerate 0 (atoms ts)))) = [k..<length ts]"
  proof (rule sorted_distinct_set_unique)
    show "set (sort (filter (\<lambda>i. i \<notin> set ws) (dict_keys (enumerate 0 (atoms ts))))) = set [k..<length ts]"
      using assms by (auto simp: dict_keys_def l)
  qed (simp_all add: dict_keys_def)
  then show ?thesis by (simp add: relabeling_of_eq)
qed

lemma built_types_seq:
  assumes "set ws = {0..<k}" "k \<le> length ts" "map (tynorm K) ts = ts"
  shows "spider_types (built K dm cd bs ws (enumerate 0 (atoms ts)) off)
         = map (\<lambda>s. ts ! s) (uniq ws @ [k..<length ts])"
proof -
  have g: "tynorm K (hd (the (dict_get (enumerate 0 (atoms ts)) s))) = ts ! s" if "s < length ts" for s
  proof -
    have "dict_get (enumerate 0 (atoms ts)) s = Some [ts ! s]"
      using that dict_get_enumerate [of s "atoms ts"] by (simp add: atoms_def)
    moreover have "tynorm K (ts ! s) = ts ! s"
      using arg_cong [OF assms(3), of "\<lambda>l. l ! s"] that by simp
    ultimately show ?thesis by simp
  qed
  have "\<forall>s\<in>set (uniq ws @ [k..<length ts]). s < length ts" using assms by auto
  then show ?thesis
    unfolding built_sel relabeling_seq [OF assms(1,2)] using g by (intro map_cong) auto
qed


lemma built_wf:
  assumes "accepts K dm cd bs ws d"
  shows "wf K (built K dm cd bs ws d off)"
proof -
  have "Hypergraph K dm cd bs ws (TypeMap d) off = Inr (built K dm cd bs ws d off)"
    using assms by (simp add: Hypergraph_eq_Inr types_dict_def)
  then show ?thesis by (intro is_hypergraph_wf is_hypergraphI)
qed

lemma dagger_wires_dagger:
  assumes dg: "daggers_ok K" and w: "wf K h"
    and h1: "h1 = built K (codH h) (domH h) (map (bdagger K) (rev (boxes h))) (dagger_wires K h) d off"
    and w1: "wf K h1"
  shows "dagger_wires K h1 = map (index_of (uniq (dagger_wires K h))) (wires h)"
proof -
  let ?f = "index_of (uniq (dagger_wires K h))"
  let ?cw = "drop (length (wires h) - length (codH h)) (wires h)"
  let ?dw = "take (length (domH h)) (wires h)"
  let ?bw = "box_wires K h"
  let ?bs1 = "map (bdagger K) (rev (boxes h))"
  note sp = wf_split [OF w]
  have W1: "wires h1 = map ?f ?cw @ map ?f (flat (map prod.swap (rev ?bw))) @ map ?f ?dw"
    by (simp add: h1 dagger_wires_def)
  have lc: "length (map ?f ?cw) = length (domH h1)" using sp(4) by (simp add: h1)
  have ld: "length (map ?f ?dw) = length (codH h1)" using sp(2) by (simp add: h1)
  have N1: "length (wires h1) = length (wires h)"
    using length_dagger_wires [OF w] by (simp add: h1)
  have tk: "take (length (domH h1)) (wires h1) = map ?f ?cw"
    unfolding W1 using lc by simp
  have dr: "drop (length (wires h1) - length (codH h1)) (wires h1) = map ?f ?dw"
  proof -
    define A where "A = map ?f ?cw @ map ?f (flat (map prod.swap (rev ?bw)))"
    define B where "B = map ?f ?dw"
    have AB: "wires h1 = A @ B" by (simp add: W1 A_def B_def)
    have "length B = length (codH h1)" using ld by (simp add: B_def)
    then have "length (wires h1) - length (codH h1) = length A" by (simp add: AB)
    then have "drop (length (wires h1) - length (codH h1)) (wires h1) = B" by (simp add: AB)
    then show ?thesis by (simp add: B_def)
  qed
  have sh: "shaped K ?bs1 (map prod.swap (rev ?bw))"
    using typed_dagger_segments(2) [OF dg list_all2_rev [THEN iffD2, OF wf_typed_boxes [OF w]]]
    by simp
  have "box_wires K h1 = box_wires_from K 0 ?bs1 (drop (length (domH h1)) (wires h1))"
    unfolding box_wires_def using box_wires_from_drop [of K "length (domH h1)" "boxes h1" "wires h1"]
    by (simp add: h1)
  also have "drop (length (domH h1)) (wires h1) = map ?f (flat (map prod.swap (rev ?bw)) @ ?dw)"
    unfolding W1 using lc by simp
  also have "box_wires_from K 0 ?bs1 (map ?f (flat (map prod.swap (rev ?bw)) @ ?dw))
      = map (\<lambda>(d, c). (map ?f d, map ?f c)) (map prod.swap (rev ?bw))"
    unfolding box_wires_from_map box_wires_from_flat [OF sh] ..
  finally have bw1: "box_wires K h1 = map (\<lambda>(d, c). (map ?f d, map ?f c)) (map prod.swap (rev ?bw))" .
  have "map prod.swap (rev (box_wires K h1)) = map (\<lambda>(d, c). (map ?f d, map ?f c)) ?bw"
    unfolding bw1 rev_map [symmetric] rev_rev_ident by (rule swap_map_swap)
  then have "flat (map prod.swap (rev (box_wires K h1))) = map ?f (inner_wires h)"
    by (simp add: flat_map_map box_wires_inner(3) [OF w])
  then have "dagger_wires K h1 = map ?f (?dw @ inner_wires h @ ?cw)"
    unfolding dagger_wires_def [of K h1] tk dr by simp
  then show ?thesis using sp(1) by simp
qed


lemma dagger_dagger:
  assumes ok: "adjoints_ok K" and dg: "daggers_ok K" and w: "wf K h"
  shows "\<exists>h1. dagger K h = Inr h1 \<and> dagger K h1 = Inr h"
proof -
  let ?W = "wires h" and ?ts = "spider_types h" and ?n = "n_spiders h"
  define k where "k = card (set ?W)"
  define U where "U = uniq (dagger_wires K h)"
  define f where "f = (\<lambda>s. if s < k then index_of U s else s)"
  define h1 where "h1 = built K (codH h) (domH h) (map (bdagger K) (rev (boxes h)))
           (dagger_wires K h) (enumerate 0 (atoms ?ts)) (Some (rev (offsets h)))"
  have d1: "dagger K h = Inr h1" unfolding h1_def by (rule dagger_built [OF ok dg w])
  have w1: "wf K h1"
    using d1 unfolding dagger_eq by (intro is_hypergraph_wf is_hypergraphI)
  have c: "canonical ?W" by (rule wf_canonical [OF w])
  have sW: "set ?W = {0..<k}" unfolding k_def by (rule canonical_set [OF c])
  have kn: "k \<le> ?n" unfolding k_def by (rule wf_card_le [OF w])
  have sU: "set U = {0..<k}" by (simp add: U_def set_dagger_wires [OF w] sW)
  have dU: "distinct U" by (simp add: U_def)
  have lU: "length U = k" using distinct_card [OF dU] by (simp add: sU)
  have ixU: "index_of U s < k" if "s < k" for s
    using index_of_less [of s U] that by (simp add: sU lU)
  have imU: "index_of U ` {0..<k} = {0..<k}"
  proof -
    have "index_of U ` set U = set (map (index_of U) U)" by simp
    also have "\<dots> = {0..<k}" by (simp only: map_index_of_self [OF dU] lU set_upt)
    finally show ?thesis by (simp add: sU)
  qed
  have ts1: "spider_types h1 = map (\<lambda>s. ?ts ! s) (U @ [k..<?n])"
    unfolding h1_def U_def n_spiders_def
    by (rule built_types_seq [OF _ _ wf_tynorm [OF ok w]])
       (use kn in \<open>simp_all add: set_dagger_wires [OF w] sW n_spiders_def\<close>)
  have n1: "length (spider_types h1) = ?n" using kn by (simp add: ts1 lU)
  have t1: "spider_types h1 ! f s = ?ts ! s" if "s < ?n" for s
  proof (cases "s < k")
    case True
    then have "s \<in> set U" by (simp add: sU)
    then show ?thesis using True ixU [OF True] by (simp add: ts1 f_def nth_append lU)
  next
    case False
    then show ?thesis using that by (simp add: ts1 f_def nth_append lU)
  qed
  have fn: "f s < ?n" if "s < ?n" for s
    using that ixU [of s] kn by (auto simp: f_def)
  have inj: "inj_on f {0..<?n}"
  proof (rule inj_onI)
    fix s t assume st: "s \<in> {0..<?n}" "t \<in> {0..<?n}" "f s = f t"
    show "s = t"
    proof (cases "s < k"; cases "t < k")
      assume a: "s < k" "t < k"
      then have "s \<in> set U" "t \<in> set U" by (simp_all add: sU)
      then show ?thesis using st(3) a inj_on_index_of [of U] by (simp add: f_def inj_on_def)
    next
      assume a: "s < k" "\<not> t < k"
      then show ?thesis using st(3) ixU [of s] by (simp add: f_def)
    next
      assume a: "\<not> s < k" "t < k"
      then show ?thesis using st(3) ixU [of t] by (simp add: f_def)
    next
      assume a: "\<not> s < k" "\<not> t < k"
      then show ?thesis using st(3) by (simp add: f_def)
    qed
  qed
  have img: "f ` {0..<?n} = {0..<?n}"
  proof -
    have "{0..<?n} = {0..<k} \<union> {k..<?n}" using kn by auto
    then have "f ` {0..<?n} = f ` {0..<k} \<union> f ` {k..<?n}" by (simp add: image_Un [symmetric])
    also have "f ` {0..<k} = index_of U ` {0..<k}" by (intro image_cong) (simp_all add: f_def)
    also have "f ` {k..<?n} = {k..<?n}" by (auto simp: f_def image_iff)
    finally show ?thesis using kn by (auto simp: imU)
  qed
  have keys: "fst ` set (enumerate 0 (atoms (spider_types h1))) = f ` {0..<?n}"
    by (simp add: fst_set_enumerate atoms_def n1 img)
  have get: "\<forall>s<?n. dict_get (enumerate 0 (atoms (spider_types h1))) (f s) = Some [?ts ! s]"
  proof (intro allI impI)
    fix s assume s: "s < ?n"
    have "dict_get (enumerate 0 (atoms (spider_types h1))) (f s) = Some (atoms (spider_types h1) ! f s)"
      using fn [OF s] by (intro dict_get_enumerate) (simp add: atoms_def n1)
    then show "dict_get (enumerate 0 (atoms (spider_types h1))) (f s) = Some [?ts ! s]"
      using fn [OF s] t1 [OF s] by (simp add: atoms_def n1)
  qed
  have mono: "\<forall>s t. card (set ?W) \<le> s \<and> s < t \<and> t < ?n \<longrightarrow> f s < f t"
    by (simp add: f_def k_def [symmetric])
  have wires1: "dagger_wires K h1 = map f ?W"
  proof -
    have "dagger_wires K h1 = map (index_of U) ?W"
      unfolding U_def by (rule dagger_wires_dagger [OF dg w _ w1]) (simp add: h1_def)
    also have "\<dots> = map f ?W" by (intro map_cong) (simp_all add: f_def sW)
    finally show ?thesis .
  qed
  have bs: "map (bdagger K) (rev (boxes h1)) = boxes h"
    using dg by (simp add: h1_def rev_map daggers_ok_def map_idI o_def)
  have offs: "rev (offsets h1) = offsets h"
  proof -
    have "offsets_of (map (bdagger K) (rev (boxes h))) (Some (rev (offsets h))) = rev (offsets h)"
      using w by (auto simp: wf_def offsets_of_def)
    then show ?thesis by (simp add: h1_def)
  qed
  have "dagger K h1 = Inr (built K (codH h1) (domH h1) (map (bdagger K) (rev (boxes h1)))
           (dagger_wires K h1) (enumerate 0 (atoms (spider_types h1))) (Some (rev (offsets h1))))"
    by (rule dagger_built [OF ok dg w1])
  also have "built K (codH h1) (domH h1) (map (bdagger K) (rev (boxes h1)))
           (dagger_wires K h1) (enumerate 0 (atoms (spider_types h1))) (Some (rev (offsets h1)))
      = built K (domH h) (codH h) (boxes h) (map f ?W) (enumerate 0 (atoms (spider_types h1))) (Some (offsets h))"
    unfolding wires1 bs offs by (simp add: h1_def)
  also have "\<dots> = h" by (rule rebuild [OF ok w inj keys get mono])
  finally show ?thesis using d1 by blast
qed

text \<open>
  C4.  The dagger of the dagger of a hypergraph is returned and is equal to the hypergraph
  in the sense of \<^verbatim>\<open>__eq__\<close>; it is the very same value.
\<close>

theorem dagger_involution:
  assumes "adjoints_ok K" and "daggers_ok K" and "is_hypergraph K f"
  shows "\<exists>g h. getitem K f Reversal = Inr g \<and> getitem K g Reversal = Inr h
               \<and> hypergraph_eq K h f \<and> h = f"
  using dagger_dagger [OF assms(1,2) is_hypergraph_wf [OF assms(3)]]
  by (auto simp: getitem_def hypergraph_eq_refl)

lemma daggers_ok_frobenius: "daggers_ok frobenius"
proof -
  have "dom_of_box (dagger_of_box b) = cod_of_box b \<and> cod_of_box (dagger_of_box b) = dom_of_box b
      \<and> dagger_of_box (dagger_of_box b) = b" for b :: "string box"
    by (cases b) simp_all
  then show ?thesis by (simp add: daggers_ok_def frobenius_def)
qed

theorem dagger_involution_witness:
  "adjoints_ok frobenius \<and> daggers_ok frobenius \<and> is_hypergraph frobenius hyp_f
   \<and> getitem frobenius hyp_f Reversal = Inr hyp_f_dagger
   \<and> getitem frobenius hyp_f_dagger Reversal = Inr hyp_f
   \<and> hypergraph_eq frobenius hyp_f hyp_f"
proof -
  have 1: "getitem frobenius hyp_f Reversal = Inr hyp_f_dagger" by code_simp
  from dagger_involution [OF adjoints_ok_frobenius daggers_ok_frobenius is_hypergraph_f]
  obtain g h where "getitem frobenius hyp_f Reversal = Inr g" "getitem frobenius g Reversal = Inr h"
    "hypergraph_eq frobenius h hyp_f" "h = hyp_f"
    by blast
  then show ?thesis
    using 1 adjoints_ok_frobenius daggers_ok_frobenius is_hypergraph_f by simp
qed

section \<open>The pushout\<close>

lemma pushout_eq:
  "pushout m n lb rb = (take m (glued m n lb rb), drop m (glued m n lb rb))"
  by (simp add: pushout_def glued_def class_ids_def first_occurrences Let_def)

lemma length_uf_union [simp]: "length (uf_union p lab) = length lab"
  by (cases p) (simp add: uf_union_def)

lemma length_fold_uf_union [simp]: "length (fold uf_union ps lab) = length lab"
  by (induction ps arbitrary: lab) simp_all

lemma length_glued [simp]: "length (glued m n lb rb) = m + n"
  by (simp add: glued_def class_ids_def)

lemma nth_uf_union:
  "x < length lab \<Longrightarrow> uf_union (a, b) lab ! x = (if lab ! x = lab ! b then lab ! a else lab ! x)"
  by (simp add: uf_union_def)

lemma class_ids_eq_iff:
  assumes "x < length lab" "y < length lab"
  shows "class_ids lab ! x = class_ids lab ! y \<longleftrightarrow> lab ! x = lab ! y"
proof -
  have "lab ! x \<in> set (uniq lab)" "lab ! y \<in> set (uniq lab)" using assms by simp_all
  then show ?thesis
    using assms inj_on_index_of [of "uniq lab"] by (auto simp: class_ids_def inj_on_def)
qed

lemma uf_types:
  assumes "\<forall>(a, b)\<in>set ps. a < N \<and> b < N \<and> T ! a = T ! b"
    and "length lab = N" and "\<forall>x<N. lab ! x < N \<and> T ! (lab ! x) = T ! x"
  shows "\<forall>x<N. fold uf_union ps lab ! x < N \<and> T ! (fold uf_union ps lab ! x) = T ! x"
  using assms
proof (induction ps arbitrary: lab)
  case Nil then show ?case by simp
next
  case (Cons p ps)
  obtain a b where p: "p = (a, b)" by (cases p)
  have ab: "a < N" "b < N" "T ! a = T ! b" using Cons.prems(1) p by auto
  have "\<forall>x<N. uf_union p lab ! x < N \<and> T ! (uf_union p lab ! x) = T ! x"
  proof (intro allI impI)
    fix x assume x: "x < N"
    show "uf_union p lab ! x < N \<and> T ! (uf_union p lab ! x) = T ! x"
    proof (cases "lab ! x = lab ! b")
      case True
      have "T ! (lab ! a) = T ! a" using Cons.prems(3) ab by blast
      moreover have "T ! (lab ! b) = T ! b" using Cons.prems(3) ab by blast
      moreover have "T ! (lab ! x) = T ! x" using Cons.prems(3) x by blast
      moreover have "lab ! a < N" using Cons.prems(3) ab by blast
      ultimately show ?thesis
        using True x ab Cons.prems(2) by (simp add: p nth_uf_union)
    next
      case False
      then show ?thesis using x Cons.prems(2,3) by (simp add: p nth_uf_union)
    qed
  qed
  moreover have "length (uf_union p lab) = N" using Cons.prems(2) by simp
  moreover have "\<forall>(a, b)\<in>set ps. a < N \<and> b < N \<and> T ! a = T ! b" using Cons.prems(1) by simp
  ultimately show ?case using Cons.IH [of "uf_union p lab"] by simp
qed

lemma dict_get_zip:
  assumes "length ks = length vs" "x < length ks"
  shows "\<exists>y<length ks. ks ! y = ks ! x \<and> dict_get (zip ks vs) (ks ! x) = Some (vs ! y)"
proof -
  have "ks ! x \<in> fst ` set (rev (zip ks vs))"
    using assms by (simp add: set_zip image_iff) (metis fst_conv)
  then obtain v where v: "map_of (rev (zip ks vs)) (ks ! x) = Some v"
    using map_of_eq_None_iff [of "rev (zip ks vs)" "ks ! x"]
    by (cases "map_of (rev (zip ks vs)) (ks ! x)") simp_all
  then have "(ks ! x, v) \<in> set (zip ks vs)" using map_of_SomeD [OF v] by simp
  then obtain y where "y < length ks" "ks ! y = ks ! x" "vs ! y = v"
    using assms(1) by (auto simp: set_zip)
  then show ?thesis using v by (auto simp: dict_get_def)
qed

lemma relabel_keys: "length ids = length T0 \<Longrightarrow> fst ` set (zip ids (atoms T0)) = set ids"
proof -
  assume "length ids = length T0"
  then have "map fst (zip ids (atoms T0)) = ids" by (simp add: atoms_def)
  then show ?thesis by (simp only: set_map [symmetric])
qed

lemma relabel_get:
  assumes len: "length ids = length T0"
    and same: "\<forall>x<length T0. \<forall>y<length T0. ids ! x = ids ! y \<longrightarrow> T0 ! x = T0 ! y"
    and x: "x < length T0"
  shows "dict_get (zip ids (atoms T0)) (ids ! x) = Some [T0 ! x]"
proof -
  have la: "length ids = length (atoms T0)" using len by (simp add: atoms_def)
  have "x < length ids" using x len by simp
  from dict_get_zip [OF la this]
  obtain y where y: "y < length ids" "ids ! y = ids ! x"
      "dict_get (zip ids (atoms T0)) (ids ! x) = Some (atoms T0 ! y)"
    by blast
  have yl: "y < length T0" using y(1) len by simp
  have "T0 ! y = T0 ! x" by (rule same [rule_format, OF yl x y(2)])
  moreover have "atoms T0 ! y = [T0 ! y]" using yl by (simp add: atoms_def)
  ultimately show ?thesis unfolding y(3) by simp
qed

lemma relabel_port:
  assumes len: "length ids = length T0"
    and same: "\<forall>x<length T0. \<forall>y<length T0. ids ! x = ids ! y \<longrightarrow> T0 ! x = T0 ! y"
    and norm: "map (tynorm K) T0 = T0"
    and p: "port_ok K T0 ob w"
  shows "ids ! w \<in> set ids \<and> (ob = tynorm K (hd (the (dict_get (zip ids (atoms T0)) (ids ! w))))
         \<or> ob = radj K (tynorm K (hd (the (dict_get (zip ids (atoms T0)) (ids ! w))))))"
proof -
  have w: "w < length T0" and ob: "ob = T0 ! w \<or> ob = radj K (T0 ! w)"
    using p by (simp_all add: port_ok_def)
  have nm: "tynorm K (T0 ! w) = T0 ! w"
    using arg_cong [OF norm, of "\<lambda>l. l ! w"] w by simp
  have g: "hd (the (dict_get (zip ids (atoms T0)) (ids ! w))) = T0 ! w"
    by (simp add: relabel_get [OF len same w])
  have "ids ! w \<in> set ids" using w len by simp
  then show ?thesis unfolding g nm using ob by simp
qed

lemma accepts_relabel:
  assumes typed: "list_all2 (port_ok K T0) (port_objs K dm cd bs) ws0"
    and norm: "map (tynorm K) T0 = T0"
    and len: "length ids = length T0"
    and same: "\<forall>x<length T0. \<forall>y<length T0. ids ! x = ids ! y \<longrightarrow> T0 ! x = T0 ! y"
  shows "accepts K dm cd bs (map (\<lambda>i. ids ! i) ws0) (zip ids (atoms T0))"
proof -
  let ?d = "zip ids (atoms T0)"
  have "\<forall>s\<in>set ids. length (the (dict_get ?d s)) = 1"
  proof
    fix s assume "s \<in> set ids"
    then obtain x where "x < length ids" "ids ! x = s" by (auto simp: in_set_conv_nth)
    then show "length (the (dict_get ?d s)) = 1" using relabel_get [OF len same, of x] len by auto
  qed
  moreover have "list_all2 (\<lambda>ob w. ids ! w \<in> set ids \<and> (ob = tynorm K (hd (the (dict_get ?d (ids ! w))))
                                            \<or> ob = radj K (tynorm K (hd (the (dict_get ?d (ids ! w)))))))
         (port_objs K dm cd bs) ws0"
    using typed by (rule list_all2_mono) (rule relabel_port [OF len same norm])
  ultimately show ?thesis
    unfolding accepts_list_all2 relabel_keys [OF len] list_all2_map2 by blast
qed


section \<open>Sequential composition\<close>

lemma then_eq:
  assumes eq: "codH f = domH g" and f: "wf K f" and g: "wf K g"
  shows "thenH K f g = Hypergraph K (domH f) (codH g) (boxes f @ boxes g)
           (map (\<lambda>i. then_ids f g ! i) (then_wires f g))
           (TypeMap (zip (then_ids f g) (atoms (spider_types f @ spider_types g))))
           (Some (offsets f @ offsets g))"
proof -
  let ?m = "n_spiders f" and ?ids = "then_ids f g"
  have l: "length ?ids = ?m + n_spiders g" by (simp add: then_ids_def)
  have 1: "map (\<lambda>i. take ?m ?ids ! i) (take (length (wires f) - length (codH f)) (wires f))
      = map (\<lambda>i. ?ids ! i) (take (length (wires f) - length (codH f)) (wires f))"
    using wf_wires_range [OF f] by (intro map_cong) (auto dest: in_set_takeD)
  have 2: "map (\<lambda>i. drop ?m ?ids ! i) (drop (length (domH g)) (wires g))
      = map (\<lambda>i. ?ids ! i) (map (\<lambda>j. ?m + j) (drop (length (domH g)) (wires g)))"
    using l by (simp add: o_def)
  have "zip (take ?m ?ids @ drop ?m ?ids) (atoms (spider_types f) @ atoms (spider_types g))
      = zip (take ?m ?ids) (atoms (spider_types f)) @ zip (drop ?m ?ids) (atoms (spider_types g))"
    using l by (intro zip_append) (simp add: atoms_def n_spiders_def)
  then have 3: "zip (take ?m ?ids) (atoms (spider_types f)) @ zip (drop ?m ?ids) (atoms (spider_types g))
      = zip ?ids (atoms (spider_types f @ spider_types g))"
    by (simp add: atoms_def)
  have nn: "\<not> \<not> codH f = domH g" using eq by simp
  show ?thesis
    unfolding thenH_def if_not_P [OF nn] pushout_eq Let_def prod.case then_ids_def [symmetric]
      1 2 3 then_wires_def map_append ..
qed

lemma then_typed:
  assumes eq: "codH f = domH g" and f: "wf K f" and g: "wf K g"
  shows "list_all2 (port_ok K (spider_types f @ spider_types g))
           (port_objs K (domH f) (codH g) (boxes f @ boxes g)) (then_wires f g)"
proof -
  note sf = wf_split [OF f] and sg = wf_split [OF g]
  have tf: "take (length (wires f) - length (codH f)) (wires f)
      = take (length (domH f)) (wires f) @ inner_wires f"
  proof -
    have "length (wires f) - length (codH f) = length (take (length (domH f)) (wires f) @ inner_wires f)"
      using sf(2,3) wf_length [OF f] by simp
    then show ?thesis using sf(1) by (metis append_assoc append_eq_conv_conj)
  qed
  have dg: "drop (length (domH g)) (wires g)
      = inner_wires g @ drop (length (wires g) - length (codH g)) (wires g)"
    using sg(1,2) by (metis append_eq_conv_conj)
  show ?thesis
    unfolding port_objs_eq then_wires_def tf dg box_objs_append append_assoc map_append n_spiders_def
    by (intro list_all2_appendI list_all2_port_left list_all2_port_right
          wf_segments(1,2) [OF f] wf_segments(2,3) [OF g])
qed

lemma wf_unflagged: "adjoints_ok K \<Longrightarrow> wf K h \<Longrightarrow> t \<in> set (spider_types h) \<Longrightarrow> \<not> zflag K t"
  by (auto simp: wf_def tynorm_unflagged)

lemma port_ok_type:
  assumes "adjoints_ok K" "wf K h" "port_ok K (spider_types h) ob w"
  shows "spider_types h ! w = tynorm K ob"
proof -
  have w: "w < length (spider_types h)" and ob: "ob = spider_types h ! w \<or> ob = radj K (spider_types h ! w)"
    using assms(3) by (simp_all add: port_ok_def)
  have "\<not> zflag K (spider_types h ! w)" using wf_unflagged [OF assms(1,2)] w by simp
  then show ?thesis using tynorm_port [OF assms(1) _ ob] by simp
qed

lemma then_same:
  assumes ok: "adjoints_ok K" and eq: "codH f = domH g" and f: "wf K f" and g: "wf K g"
  shows "\<forall>x<length (spider_types f @ spider_types g). \<forall>y<length (spider_types f @ spider_types g).
           then_ids f g ! x = then_ids f g ! y
           \<longrightarrow> (spider_types f @ spider_types g) ! x = (spider_types f @ spider_types g) ! y"
proof -
  let ?m = "n_spiders f" and ?n = "n_spiders g"
  let ?T = "spider_types f @ spider_types g"
  let ?cw = "drop (length (wires f) - length (codH f)) (wires f)"
  let ?dw = "take (length (domH g)) (wires g)"
  let ?ps = "zip ?cw (map (\<lambda>j. ?m + j) ?dw)"
  let ?lab = "fold uf_union ?ps [0..<?m + ?n]"
  have N: "length ?T = ?m + ?n" by (simp add: n_spiders_def)
  have pairs: "\<forall>(a, b)\<in>set ?ps. a < ?m + ?n \<and> b < ?m + ?n \<and> ?T ! a = ?T ! b"
  proof (clarify)
    fix a b assume "(a, b) \<in> set ?ps"
    then obtain q where q: "q < length ?cw" "q < length ?dw" "a = ?cw ! q" "b = ?m + ?dw ! q"
      by (auto simp: set_zip)
    have pf: "port_ok K (spider_types f) (codH f ! q) (?cw ! q)"
      using wf_segments(3) [OF f] q(1) by (simp add: list_all2_conv_all_nth)
    have pg: "port_ok K (spider_types g) (domH g ! q) (?dw ! q)"
      using wf_segments(1) [OF g] q(2) by (simp add: list_all2_conv_all_nth)
    have "spider_types f ! (?cw ! q) = spider_types g ! (?dw ! q)"
      using port_ok_type [OF ok f pf] port_ok_type [OF ok g pg] eq by simp
    moreover have "?cw ! q < ?m" "?dw ! q < ?n"
      using pf pg by (simp_all add: port_ok_def n_spiders_def)
    ultimately show "a < ?m + ?n \<and> b < ?m + ?n \<and> ?T ! a = ?T ! b"
      using q(3,4) by (simp add: nth_append n_spiders_def)
  qed
  have inv: "\<forall>x<?m + ?n. ?lab ! x < ?m + ?n \<and> ?T ! (?lab ! x) = ?T ! x"
    by (rule uf_types [OF pairs]) simp_all
  show ?thesis
  proof (intro allI impI)
    fix x y assume x: "x < length ?T" and y: "y < length ?T" and e: "then_ids f g ! x = then_ids f g ! y"
    have "?lab ! x = ?lab ! y"
      using e x y N class_ids_eq_iff [of x ?lab y] by (simp add: then_ids_def glued_def)
    moreover have "?T ! (?lab ! x) = ?T ! x" "?T ! (?lab ! y) = ?T ! y"
      using inv x y N by simp_all
    ultimately show "?T ! x = ?T ! y" by simp
  qed
qed

lemma then_built:
  assumes ok: "adjoints_ok K" and eq: "codH f = domH g" and f: "wf K f" and g: "wf K g"
  shows "thenH K f g = Inr (built K (domH f) (codH g) (boxes f @ boxes g)
           (map (\<lambda>i. then_ids f g ! i) (then_wires f g))
           (zip (then_ids f g) (atoms (spider_types f @ spider_types g)))
           (Some (offsets f @ offsets g)))"
proof -
  have norm: "map (tynorm K) (spider_types f @ spider_types g) = spider_types f @ spider_types g"
    using wf_tynorm [OF ok f] wf_tynorm [OF ok g] by simp
  have len: "length (then_ids f g) = length (spider_types f @ spider_types g)"
    by (simp add: then_ids_def n_spiders_def)
  have "accepts K (domH f) (codH g) (boxes f @ boxes g)
           (map (\<lambda>i. then_ids f g ! i) (then_wires f g))
           (zip (then_ids f g) (atoms (spider_types f @ spider_types g)))"
    by (rule accepts_relabel [OF then_typed [OF eq f g] norm len then_same [OF ok eq f g]])
  then show ?thesis
    unfolding then_eq [OF eq f g] by (simp add: Hypergraph_eq_Inr types_dict_def)
qed

text \<open>
  C1.  The composition of two hypergraphs raises \<^verbatim>\<open>AxiomError\<close> exactly when the
  codomain of the first is not the domain of the second.  Otherwise it returns a
  hypergraph with the domain of the first, the codomain of the second and the boxes of
  the first followed by those of the second.
\<close>

theorem then_spec:
  assumes "adjoints_ok K" and "is_hypergraph K f" and "is_hypergraph K g"
  shows "(thenH K f g = Inl AxiomError \<longleftrightarrow> codH f \<noteq> domH g)
       \<and> (codH f = domH g \<longrightarrow>
            (\<exists>h. thenH K f g = Inr h \<and> is_hypergraph K h
                  \<and> domH h = domH f \<and> codH h = codH g
                  \<and> boxes h = boxes f @ boxes g))"
proof (cases "codH f = domH g")
  case True
  note f = is_hypergraph_wf [OF assms(2)] and g = is_hypergraph_wf [OF assms(3)]
  define h where "h = built K (domH f) (codH g) (boxes f @ boxes g)
           (map (\<lambda>i. then_ids f g ! i) (then_wires f g))
           (zip (then_ids f g) (atoms (spider_types f @ spider_types g)))
           (Some (offsets f @ offsets g))"
  have t: "thenH K f g = Inr h"
    unfolding h_def by (rule then_built [OF assms(1) True f g])
  have "is_hypergraph K h"
    using t unfolding then_eq [OF True f g] by (rule is_hypergraphI)
  moreover have "domH h = domH f" "codH h = codH g" "boxes h = boxes f @ boxes g"
    by (simp_all add: h_def)
  ultimately show ?thesis using True t by simp
next
  case False
  then show ?thesis by (simp add: thenH_def)
qed

lemma then_f_g: "thenH frobenius hyp_f hyp_g = Inr hyp_f_then_g"
  by code_simp

theorem then_spec_witness:
  "adjoints_ok frobenius \<and> is_hypergraph frobenius hyp_f \<and> is_hypergraph frobenius hyp_g
   \<and> codH hyp_f = domH hyp_g
   \<and> thenH frobenius hyp_f hyp_g = Inr hyp_f_then_g
   \<and> is_hypergraph frobenius hyp_f_then_g
   \<and> domH hyp_f_then_g = domH hyp_f \<and> codH hyp_f_then_g = codH hyp_g
   \<and> boxes hyp_f_then_g = boxes hyp_f @ boxes hyp_g
   \<and> codH hyp_g \<noteq> domH hyp_f \<and> thenH frobenius hyp_g hyp_f = Inl AxiomError"
proof -
  have e: "codH hyp_f = domH hyp_g" by (simp add: hyp_f_def hyp_g_def)
  have ne: "codH hyp_g \<noteq> domH hyp_f" by (simp add: hyp_f_def hyp_g_def)
  from then_spec [OF adjoints_ok_frobenius is_hypergraph_f is_hypergraph_g] e then_f_g
  have 1: "is_hypergraph frobenius hyp_f_then_g
      \<and> domH hyp_f_then_g = domH hyp_f \<and> codH hyp_f_then_g = codH hyp_g
      \<and> boxes hyp_f_then_g = boxes hyp_f @ boxes hyp_g"
    by auto
  from then_spec [OF adjoints_ok_frobenius is_hypergraph_g is_hypergraph_f] ne
  have 2: "thenH frobenius hyp_g hyp_f = Inl AxiomError" by blast
  show ?thesis
    using 1 2 e ne then_f_g adjoints_ok_frobenius is_hypergraph_f is_hypergraph_g by blast
qed

section \<open>The identity\<close>

lemma uniq_distinct: "distinct xs \<Longrightarrow> uniq xs = xs"
  by (induction xs) simp_all

lemma uniq_twice: "uniq ([0..<k] @ [0..<k]) = [0..<k]"
  by (simp add: uniq_append uniq_distinct)

lemma canonical_twice: "canonical ([0..<k] @ [0..<k])"
  by (simp add: canonical_def uniq_twice)

lemma id_dict:
  assumes "i < length t"
  shows "dict_get (zip ([0..<length t] @ [0..<length t]) (atoms (t @ t))) i = Some [t ! i]"
proof -
  let ?ks = "[0..<length t] @ [0..<length t]"
  have l: "length ?ks = length (atoms (t @ t))" by (simp add: atoms_def)
  have i: "i < length ?ks" "?ks ! i = i" using assms by (simp_all add: nth_append)
  from dict_get_zip [OF l i(1)] obtain y where y: "y < length ?ks" "?ks ! y = ?ks ! i"
    "dict_get (zip ?ks (atoms (t @ t))) (?ks ! i) = Some (atoms (t @ t) ! y)"
    by blast
  have "(t @ t) ! y = t ! i"
    using y(1,2) i(2) by (cases "y < length t") (simp_all add: nth_append)
  moreover have "atoms (t @ t) ! y = [(t @ t) ! y]" using y(1) unfolding atoms_def by (subst nth_map) simp_all
  ultimately show ?thesis using y(3) i(2) by simp
qed

lemma id_keys: "fst ` set (zip ([0..<length t] @ [0..<length t]) (atoms (t @ t))) = {0..<length t}"
proof -
  have "map fst (zip ([0..<length t] @ [0..<length t]) (atoms (t @ t))) = [0..<length t] @ [0..<length t]"
    by (simp add: atoms_def)
  then have "set (map fst (zip ([0..<length t] @ [0..<length t]) (atoms (t @ t)))) = set ([0..<length t] @ [0..<length t])"
    by (rule arg_cong)
  then show ?thesis by (simp only: set_map set_append set_upt Un_absorb)
qed

lemma id_typed:
  assumes ok: "adjoints_ok K"
  shows "list_all2 (\<lambda>ob w. w \<in> {0..<length t} \<and> (ob = tynorm K (hd (the (dict_get (zip ([0..<length t] @ [0..<length t]) (atoms (t @ t))) w)))
                                            \<or> ob = radj K (tynorm K (hd (the (dict_get (zip ([0..<length t] @ [0..<length t]) (atoms (t @ t))) w))))))
         (t @ t) ([0..<length t] @ [0..<length t])"
proof (rule list_all2_all_nthI)
  let ?k = "length t"
  let ?ws = "[0..<?k] @ [0..<?k]"
  let ?d = "zip ?ws (atoms (t @ t))"
  show "length (t @ t) = length ?ws" by simp
  fix p assume p: "p < length (t @ t)"
  have w: "?ws ! p < ?k" "(t @ t) ! p = t ! (?ws ! p)"
    using p by (cases "p < ?k"; simp add: nth_append)+
  have g: "hd (the (dict_get ?d (?ws ! p))) = t ! (?ws ! p)"
    using id_dict [OF w(1)] by simp
  show "?ws ! p \<in> {0..<?k} \<and> ((t @ t) ! p = tynorm K (hd (the (dict_get ?d (?ws ! p))))
         \<or> (t @ t) ! p = radj K (tynorm K (hd (the (dict_get ?d (?ws ! p))))))"
    unfolding g w(2) using w(1) port_self [OF ok, of "t ! (?ws ! p)"] by simp
qed


lemma id_types_dict:
  "types_dict (ports_of K t t []) ([0..<length t] @ [0..<length t]) NoTypes
   = zip ([0..<length t] @ [0..<length t]) (atoms (t @ t))"
proof -
  have "map (\<lambda>port. [obj port]) (ports_of K t t []) = map (\<lambda>x. [x]) (map obj (ports_of K t t []))"
    by (simp only: map_map o_def)
  also have "\<dots> = atoms (t @ t)"
    unfolding map_obj_ports_of port_objs_eq atoms_def by (simp add: box_objs_def)
  finally show ?thesis by (simp add: types_dict_def)
qed

lemma id_accepts:
  assumes ok: "adjoints_ok K"
  shows "accepts K t t [] ([0..<length t] @ [0..<length t])
           (zip ([0..<length t] @ [0..<length t]) (atoms (t @ t)))"
proof -
  have "\<forall>s\<in>{0..<length t}. length (the (dict_get (zip ([0..<length t] @ [0..<length t]) (atoms (t @ t))) s)) = 1"
    by (simp add: id_dict)
  moreover have "port_objs K t t [] = t @ t" by (simp add: port_objs_eq box_objs_def)
  ultimately show ?thesis
    unfolding accepts_list_all2 id_keys using id_typed [OF ok, of t] by simp
qed

lemma id_relabeling:
  "relabeling_of ([0..<length t] @ [0..<length t])
     (zip ([0..<length t] @ [0..<length t]) (atoms (t @ t))) = [0..<length t]"
  by (rule relabeling_of_canonical [OF canonical_twice id_keys]) (simp add: id_keys)

lemma id_spider_types:
  "map (\<lambda>s. tynorm K (hd (the (dict_get (zip ([0..<length t] @ [0..<length t]) (atoms (t @ t))) s))))
     [0..<length t] = map (tynorm K) t"
  by (rule nth_equalityI) (simp_all add: id_dict)

lemma id_built:
  assumes ok: "adjoints_ok K"
  shows "idH K t = Inr (identity K t)"
proof -
  have "built K t t [] ([0..<length t] @ [0..<length t])
          (zip ([0..<length t] @ [0..<length t]) (atoms (t @ t))) None = identity K t"
    unfolding built_def identity_def id_relabeling id_spider_types relabel_canonical [OF canonical_twice]
    by (simp add: offsets_of_def)
  then show ?thesis
    unfolding idH_def Hypergraph_eq_Inr id_types_dict using id_accepts [OF ok] by simp
qed

lemma id_is_hypergraph: "adjoints_ok K \<Longrightarrow> is_hypergraph K (identity K t)"
  using id_built [of K t] unfolding idH_def by (rule is_hypergraphI)

lemma id_wf: "adjoints_ok K \<Longrightarrow> wf K (identity K t)"
  by (rule is_hypergraph_wf [OF id_is_hypergraph])

lemma identity_sel [simp]:
  "domH (identity K t) = t" "codH (identity K t) = t" "boxes (identity K t) = []"
  "wires (identity K t) = [0..<length t] @ [0..<length t]"
  "spider_types (identity K t) = map (tynorm K) t" "offsets (identity K t) = []"
  "n_spiders (identity K t) = length t"
  by (simp_all add: identity_def n_spiders_def)


section \<open>Gluing an identity\<close>

lemma uf_union_at:
  "lab ! b = vb \<Longrightarrow> lab ! a = va \<Longrightarrow> uf_union (a, b) lab = map (\<lambda>c. if c = vb then va else c) lab"
  by (simp add: uf_union_def)

lemma uf_fold_right:
  assumes "set cw \<subseteq> {0..<m}" "i \<le> length cw"
  shows "fold uf_union (zip (take i cw) (map (\<lambda>j. m + j) [0..<i])) [0..<m + length cw]
         = [0..<m] @ take i cw @ [m + i..<m + length cw]"
  using assms(2)
proof (induction i)
  case 0
  have "[0..<m + length cw] = [0..<m] @ [m..<m + length cw]" by (rule upt_add_eq_append) simp
  then show ?case by simp
next
  case (Suc i)
  let ?k = "length cw"
  let ?L = "[0..<m] @ take i cw @ [m + i..<m + ?k]"
  have i: "i < ?k" using Suc.prems by simp
  have ci: "cw ! i < m" using assms(1) i by (metis atLeastLessThan_iff nth_mem subsetD)
  have z: "zip (take (Suc i) cw) (map (\<lambda>j. m + j) [0..<Suc i])
      = zip (take i cw) (map (\<lambda>j. m + j) [0..<i]) @ [(cw ! i, m + i)]"
    using i by (simp add: take_Suc_conv_app_nth)
  have ih: "fold uf_union (zip (take i cw) (map (\<lambda>j. m + j) [0..<i])) [0..<m + ?k] = ?L"
    using Suc.IH i by simp
  have nb: "?L ! (m + i) = m + i" using i by (simp add: nth_append)
  have na: "?L ! (cw ! i) = cw ! i" using ci by (simp add: nth_append)
  have m1: "map (\<lambda>c. if c = m + i then cw ! i else c) [0..<m] = [0..<m]"
    by (rule map_idI) simp
  have m2: "map (\<lambda>c. if c = m + i then cw ! i else c) (take i cw) = take i cw"
  proof (rule map_idI)
    fix c assume "c \<in> set (take i cw)"
    then have "c < m" using assms(1) by (auto dest: in_set_takeD)
    then show "(if c = m + i then cw ! i else c) = c" by simp
  qed
  have u: "[m + i..<m + ?k] = (m + i) # [Suc (m + i)..<m + ?k]"
    using i by (simp add: upt_conv_Cons)
  have "map (\<lambda>c. if c = m + i then cw ! i else c) [Suc (m + i)..<m + ?k] = [Suc (m + i)..<m + ?k]"
    by (rule map_idI) simp
  then have m3: "map (\<lambda>c. if c = m + i then cw ! i else c) [m + i..<m + ?k] = cw ! i # [Suc (m + i)..<m + ?k]"
    unfolding u by simp
  have t: "take (Suc i) cw = take i cw @ [cw ! i]" using i by (rule take_Suc_conv_app_nth)
  have "uf_union (cw ! i, m + i) ?L = [0..<m] @ take (Suc i) cw @ [m + Suc i..<m + ?k]"
    unfolding uf_union_at [OF nb na] map_append m1 m2 m3 t by simp
  then show ?case unfolding z fold_append o_apply ih by simp
qed

lemma glued_right:
  assumes "set cw \<subseteq> {0..<m}"
  shows "glued m (length cw) cw [0..<length cw] = [0..<m] @ cw"
proof -
  have "fold uf_union (zip cw (map (\<lambda>j. m + j) [0..<length cw])) [0..<m + length cw] = [0..<m] @ cw"
    using uf_fold_right [OF assms, of "length cw"] by simp
  moreover have "uniq ([0..<m] @ cw) = [0..<m]"
    using assms by (simp add: uniq_append uniq_distinct filter_empty_conv subset_iff)
  moreover have "map (index_of [0..<m]) ([0..<m] @ cw) = [0..<m] @ cw"
    using assms by (intro map_idI) auto
  ultimately show ?thesis by (simp add: glued_def class_ids_def del: map_append)
qed


section \<open>The identity on the right\<close>

lemma then_get:
  assumes ok: "adjoints_ok K" and eq: "codH f = domH g" and f: "wf K f" and g: "wf K g"
    and x: "x < n_spiders f + n_spiders g"
  shows "dict_get (zip (then_ids f g) (atoms (spider_types f @ spider_types g))) (then_ids f g ! x)
         = Some [(spider_types f @ spider_types g) ! x]"
proof -
  have len: "length (then_ids f g) = length (spider_types f @ spider_types g)"
    by (simp add: then_ids_def n_spiders_def)
  have x': "x < length (spider_types f @ spider_types g)" using x by (simp add: n_spiders_def)
  show ?thesis by (rule relabel_get [OF len then_same [OF ok eq f g] x'])
qed

lemma then_keys:
  "fst ` set (zip (then_ids f g) (atoms (spider_types f @ spider_types g))) = set (then_ids f g)"
  by (rule relabel_keys) (simp add: then_ids_def n_spiders_def)

lemma then_id_ids:
  assumes f: "wf K f" and t: "codH f = t"
  shows "then_ids f (identity K t)
         = [0..<n_spiders f] @ drop (length (wires f) - length (codH f)) (wires f)"
proof -
  let ?cw = "drop (length (wires f) - length (codH f)) (wires f)"
  have l: "length ?cw = length t" using wf_split(4) [OF f] t by simp
  have sub: "set ?cw \<subseteq> {0..<n_spiders f}"
    using wf_wires_range [OF f] by (auto dest: in_set_dropD)
  have "then_ids f (identity K t) = glued (n_spiders f) (length ?cw) ?cw [0..<length ?cw]"
    unfolding then_ids_def l by simp
  then show ?thesis unfolding glued_right [OF sub] .
qed

lemma then_id_wires:
  assumes f: "wf K f" and t: "codH f = t"
  shows "map (\<lambda>i. then_ids f (identity K t) ! i) (then_wires f (identity K t)) = wires f"
proof -
  let ?cw = "drop (length (wires f) - length (codH f)) (wires f)"
  let ?pre = "take (length (wires f) - length (codH f)) (wires f)"
  let ?m = "n_spiders f"
  have l: "length ?cw = length t" using wf_split(4) [OF f] t by simp
  have w: "then_wires f (identity K t) = ?pre @ map (\<lambda>j. ?m + j) [0..<length t]"
    by (simp add: then_wires_def)
  have 1: "map (\<lambda>i. ([0..<?m] @ ?cw) ! i) ?pre = ?pre"
  proof (rule map_idI)
    fix i assume "i \<in> set ?pre"
    then have "i < ?m" using wf_wires_range [OF f] by (auto dest: in_set_takeD)
    then show "([0..<?m] @ ?cw) ! i = i" by (simp add: nth_append)
  qed
  have 2: "map (\<lambda>i. ([0..<?m] @ ?cw) ! i) (map (\<lambda>j. ?m + j) [0..<length t]) = ?cw"
    using l by (intro nth_equalityI) (simp_all add: nth_append)
  show ?thesis unfolding then_id_ids [OF f t] w map_append 1 2 by simp
qed

lemma then_id:
  assumes ok: "adjoints_ok K" and f: "wf K f" and t: "codH f = t"
  shows "thenH K f (identity K t) = Inr f"
proof -
  let ?i = "identity K t"
  let ?d = "zip (then_ids f ?i) (atoms (spider_types f @ spider_types ?i))"
  let ?cw = "drop (length (wires f) - length (codH f)) (wires f)"
  note i = id_wf [OF ok, of t]
  have eq: "codH f = domH ?i" using t by simp
  have sub: "set ?cw \<subseteq> {0..<n_spiders f}"
    using wf_wires_range [OF f] by (auto dest: in_set_dropD)
  have "set (then_ids f ?i) = {0..<n_spiders f}"
    unfolding then_id_ids [OF f t] using sub by auto
  then have keys: "fst ` set ?d = (\<lambda>x. x) ` {0..<n_spiders f}"
    using then_keys [of f ?i] by simp
  have get: "\<forall>s<n_spiders f. dict_get ?d s = Some [spider_types f ! s]"
  proof (intro allI impI)
    fix s assume s: "s < n_spiders f"
    then have "s < n_spiders f + n_spiders ?i" by simp
    from then_get [OF ok eq f i this]
    have "dict_get ?d (then_ids f ?i ! s) = Some [(spider_types f @ spider_types ?i) ! s]" .
    moreover have "then_ids f ?i ! s = s" unfolding then_id_ids [OF f t] using s by (simp add: nth_append)
    moreover have "(spider_types f @ spider_types ?i) ! s = spider_types f ! s"
      using s by (simp add: nth_append n_spiders_def)
    ultimately show "dict_get ?d s = Some [spider_types f ! s]" by simp
  qed
  have "built K (domH f) (codH f) (boxes f) (map (\<lambda>x. x) (wires f)) ?d (Some (offsets f)) = f"
    by (rule rebuild [OF ok f _ keys get]) simp_all
  then have "built K (domH f) (codH ?i) (boxes f @ boxes ?i)
       (map (\<lambda>i. then_ids f ?i ! i) (then_wires f ?i)) ?d (Some (offsets f @ offsets ?i)) = f"
    unfolding then_id_wires [OF f t] using t by simp
  then show ?thesis unfolding then_built [OF ok eq f i] by simp
qed


section \<open>The identity on the left\<close>

lemma canonical_take: "canonical ws \<Longrightarrow> canonical (take i ws)"
  using take_relabel [of i ws] canonical_relabel [of "take i ws"] by (simp add: relabel_canonical)

lemma filter_upt_ge: "c \<le> n \<Longrightarrow> filter (\<lambda>y. y \<notin> {0..<c}) [0..<n] = [c..<n]"
proof -
  assume c: "c \<le> n"
  have "[0..<n] = [0..<c] @ [c..<n]" using c by (metis le_add_diff_inverse upt_add_eq_append zero_le)
  moreover have "filter (\<lambda>y. y \<notin> {0..<c}) [0..<c] = []" by (simp add: filter_empty_conv)
  moreover have "filter (\<lambda>y. y \<notin> {0..<c}) [c..<n] = [c..<n]" by (simp add: filter_id_conv)
  ultimately show ?thesis by simp
qed

lemma uniq_canonical_upt:
  assumes c: "canonical ws" and sub: "set ws \<subseteq> {0..<n}"
  shows "uniq (ws @ [0..<n]) = [0..<n]"
proof -
  define k where "k = card (set ws)"
  have s: "set ws = {0..<k}" unfolding k_def by (rule canonical_set [OF c])
  have u: "uniq ws = [0..<k]" unfolding k_def by (rule canonical_uniq [OF c])
  have kn: "k \<le> n" using sub unfolding s by (cases "k = 0") auto
  have "[0..<n] = [0..<k] @ [k..<n]" using kn by (metis le_add_diff_inverse upt_add_eq_append zero_le)
  then show ?thesis
    unfolding uniq_append u s by (simp add: uniq_distinct filter_upt_ge [OF kn])
qed

lemma uf_fold_left:
  assumes sub: "set dw \<subseteq> {0..<n}" and i: "i \<le> length dw"
  shows "\<exists>g. inj_on g {0..<n} \<and> (\<forall>s<n. g s < i \<or> length dw \<le> g s)
           \<and> fold uf_union (zip [0..<i] (map (\<lambda>j. length dw + j) (take i dw))) [0..<length dw + n]
             = map g (take i dw) @ [i..<length dw] @ map g [0..<n]"
  using i
proof (induction i)
  case 0
  let ?k = "length dw"
  have "[0..<?k + n] = [0..<?k] @ [?k..<?k + n]" by (rule upt_add_eq_append) simp
  moreover have "map (\<lambda>s. ?k + s) [0..<n] = [?k..<?k + n]"
    using map_add_upt [of ?k n] by (simp add: add.commute)
  ultimately have "fold uf_union (zip [0..<0] (map (\<lambda>j. ?k + j) (take 0 dw))) [0..<?k + n]
             = map (\<lambda>s. ?k + s) (take 0 dw) @ [0..<?k] @ map (\<lambda>s. ?k + s) [0..<n]"
    by simp
  moreover have "inj_on (\<lambda>s. ?k + s) {0..<n}" by (simp add: inj_on_def)
  moreover have "\<forall>s<n. ?k + s < 0 \<or> ?k \<le> ?k + s" by simp
  ultimately show ?case by blast
next
  case (Suc i)
  let ?k = "length dw"
  have i: "i < ?k" using Suc.prems by simp
  from Suc.IH i obtain g where inj: "inj_on g {0..<n}"
    and rng: "\<forall>s<n. g s < i \<or> ?k \<le> g s"
    and ih: "fold uf_union (zip [0..<i] (map (\<lambda>j. ?k + j) (take i dw))) [0..<?k + n]
             = map g (take i dw) @ [i..<?k] @ map g [0..<n]"
    by auto
  let ?L = "map g (take i dw) @ [i..<?k] @ map g [0..<n]"
  let ?s = "dw ! i"
  let ?g = "g(?s := i)"
  have s: "?s < n" using sub i by (metis atLeastLessThan_iff nth_mem subsetD)
  have gs: "g ?s < i \<or> ?k \<le> g ?s" using rng s by blast
  have eqs: "g x = g ?s \<longleftrightarrow> x = ?s" if "x < n" for x
    using inj that s by (auto simp: inj_on_def)
  have z: "zip [0..<Suc i] (map (\<lambda>j. ?k + j) (take (Suc i) dw))
      = zip [0..<i] (map (\<lambda>j. ?k + j) (take i dw)) @ [(i, ?k + ?s)]"
    using i by (simp add: take_Suc_conv_app_nth)
  have lk: "length (map g (take i dw) @ [i..<?k]) = ?k" using i by simp
  have "((map g (take i dw) @ [i..<?k]) @ map g [0..<n]) ! (length (map g (take i dw) @ [i..<?k]) + ?s)
        = map g [0..<n] ! ?s"
    by (rule nth_append_length_plus)
  then have nb: "?L ! (?k + ?s) = g ?s" unfolding lk using s by simp
  have li: "length (map g (take i dw)) = i" using i by simp
  have "(map g (take i dw) @ [i..<?k] @ map g [0..<n]) ! (length (map g (take i dw)) + 0)
        = ([i..<?k] @ map g [0..<n]) ! 0"
    by (rule nth_append_length_plus)
  then have na: "?L ! i = i" unfolding li using i by (simp add: upt_conv_Cons)
  have m1: "map (\<lambda>c. if c = g ?s then i else c) (map g (take i dw)) = map ?g (take i dw)"
  proof (simp only: map_map o_def, rule map_cong [OF refl])
    fix x assume "x \<in> set (take i dw)"
    then have "x < n" using sub by (auto dest: in_set_takeD)
    then show "(if g x = g ?s then i else g x) = ?g x" using eqs by simp
  qed
  have m3: "map (\<lambda>c. if c = g ?s then i else c) (map g [0..<n]) = map ?g [0..<n]"
  proof (simp only: map_map o_def, rule map_cong [OF refl])
    fix x assume "x \<in> set [0..<n]"
    then have "x < n" by simp
    then show "(if g x = g ?s then i else g x) = ?g x" using eqs by simp
  qed
  have m2: "map (\<lambda>c. if c = g ?s then i else c) [i..<?k] = [i..<?k]"
    using gs by (intro map_idI) auto
  have u: "[i..<?k] = i # [Suc i..<?k]" using i by (simp add: upt_conv_Cons)
  have t: "map ?g (take (Suc i) dw) = map ?g (take i dw) @ [i]"
    using i by (simp add: take_Suc_conv_app_nth)
  have "uf_union (i, ?k + ?s) ?L = map ?g (take i dw) @ [i..<?k] @ map ?g [0..<n]"
    unfolding uf_union_at [OF nb na] map_append m1 m2 m3 ..
  also have "\<dots> = map ?g (take (Suc i) dw) @ [Suc i..<?k] @ map ?g [0..<n]"
    unfolding t u by simp
  finally have step: "fold uf_union (zip [0..<Suc i] (map (\<lambda>j. ?k + j) (take (Suc i) dw))) [0..<?k + n]
        = map ?g (take (Suc i) dw) @ [Suc i..<?k] @ map ?g [0..<n]"
    unfolding z fold_append o_apply ih by simp
  have "i \<notin> g ` {0..<n}" using rng i by auto
  then have inj': "inj_on ?g {0..<n}" using inj by (intro inj_on_fun_updI)
  have rng': "\<forall>x<n. ?g x < Suc i \<or> ?k \<le> ?g x" using rng by (auto simp: less_Suc_eq)
  show ?case using inj' rng' step by blast
qed

lemma glued_left:
  assumes sub: "set dw \<subseteq> {0..<n}" and c: "canonical dw"
  shows "glued (length dw) n [0..<length dw] dw = dw @ [0..<n]"
proof -
  from uf_fold_left [OF sub, of "length dw"] obtain g where inj: "inj_on g {0..<n}"
    and lab: "fold uf_union (zip [0..<length dw] (map (\<lambda>j. length dw + j) dw)) [0..<length dw + n]
             = map g (dw @ [0..<n])"
    by auto
  have "inj_on g (set (dw @ [0..<n]))"
    using inj by (rule inj_on_subset) (use sub in auto)
  from relabel_inj [OF this]
  have "class_ids (map g (dw @ [0..<n])) = map (index_of (uniq (dw @ [0..<n]))) (dw @ [0..<n])"
    unfolding class_ids_def .
  also have "\<dots> = dw @ [0..<n]"
    unfolding uniq_canonical_upt [OF c sub] using sub by (intro map_idI) auto
  finally show ?thesis unfolding glued_def lab .
qed


lemma id_then_ids:
  assumes f: "wf K f" and t: "domH f = t"
  shows "then_ids (identity K t) f = take (length t) (wires f) @ [0..<n_spiders f]"
proof -
  let ?dw = "take (length (domH f)) (wires f)"
  have l: "length ?dw = length t" using wf_split(2) [OF f] t by simp
  have sub: "set ?dw \<subseteq> {0..<n_spiders f}"
    using wf_wires_range [OF f] by (auto dest: in_set_takeD)
  have c: "canonical ?dw" by (rule canonical_take [OF wf_canonical [OF f]])
  have "then_ids (identity K t) f = glued (length ?dw) (n_spiders f) [0..<length ?dw] ?dw"
    unfolding then_ids_def l by (simp add: t)
  then show ?thesis unfolding glued_left [OF sub c] by (simp add: t)
qed

lemma id_then_wires:
  assumes f: "wf K f" and t: "domH f = t"
  shows "map (\<lambda>i. then_ids (identity K t) f ! i) (then_wires (identity K t) f) = wires f"
proof -
  let ?dw = "take (length t) (wires f)"
  let ?rest = "drop (length t) (wires f)"
  let ?n = "n_spiders f"
  have l: "length ?dw = length t" using wf_split(2) [OF f] t by simp
  have w: "then_wires (identity K t) f = [0..<length t] @ map (\<lambda>j. length t + j) ?rest"
    by (simp add: then_wires_def t)
  have 1: "map (\<lambda>i. (?dw @ [0..<?n]) ! i) [0..<length t] = ?dw"
    using l by (intro nth_equalityI) (simp_all add: nth_append)
  have 2: "map (\<lambda>i. (?dw @ [0..<?n]) ! i) (map (\<lambda>j. length t + j) ?rest) = ?rest"
  proof (simp only: map_map o_def, rule map_idI)
    fix j assume "j \<in> set ?rest"
    then have j: "j < ?n" using wf_wires_range [OF f] by (auto dest: in_set_dropD)
    have "(?dw @ [0..<?n]) ! (length ?dw + j) = [0..<?n] ! j" by (rule nth_append_length_plus)
    then show "(?dw @ [0..<?n]) ! (length t + j) = j" unfolding l using j by simp
  qed
  show ?thesis unfolding id_then_ids [OF f t] w map_append 1 2 by simp
qed

lemma id_then:
  assumes ok: "adjoints_ok K" and f: "wf K f" and t: "domH f = t"
  shows "thenH K (identity K t) f = Inr f"
proof -
  let ?i = "identity K t"
  let ?d = "zip (then_ids ?i f) (atoms (spider_types ?i @ spider_types f))"
  let ?dw = "take (length t) (wires f)"
  note i = id_wf [OF ok, of t]
  have eq: "codH ?i = domH f" using t by simp
  have l: "length ?dw = length t" using wf_split(2) [OF f] t by simp
  have sub: "set ?dw \<subseteq> {0..<n_spiders f}"
    using wf_wires_range [OF f] by (auto dest: in_set_takeD)
  have "set (then_ids ?i f) = {0..<n_spiders f}"
    unfolding id_then_ids [OF f t] using sub by auto
  then have keys: "fst ` set ?d = (\<lambda>x. x) ` {0..<n_spiders f}"
    using then_keys [of ?i f] by simp
  have get: "\<forall>s<n_spiders f. dict_get ?d s = Some [spider_types f ! s]"
  proof (intro allI impI)
    fix s assume s: "s < n_spiders f"
    then have "length t + s < n_spiders ?i + n_spiders f" by simp
    from then_get [OF ok eq i f this]
    have "dict_get ?d (then_ids ?i f ! (length t + s)) = Some [(spider_types ?i @ spider_types f) ! (length t + s)]" .
    moreover have "(?dw @ [0..<n_spiders f]) ! (length ?dw + s) = [0..<n_spiders f] ! s"
      by (rule nth_append_length_plus)
    then have "then_ids ?i f ! (length t + s) = s" unfolding id_then_ids [OF f t] l using s by simp
    moreover have "(spider_types ?i @ spider_types f) ! (length (spider_types ?i) + s) = spider_types f ! s"
      by (rule nth_append_length_plus)
    then have "(spider_types ?i @ spider_types f) ! (length t + s) = spider_types f ! s" by simp
    ultimately show "dict_get ?d s = Some [spider_types f ! s]" by simp
  qed
  have "built K (domH f) (codH f) (boxes f) (map (\<lambda>x. x) (wires f)) ?d (Some (offsets f)) = f"
    by (rule rebuild [OF ok f _ keys get]) simp_all
  then have "built K (domH ?i) (codH f) (boxes ?i @ boxes f)
       (map (\<lambda>i. then_ids ?i f ! i) (then_wires ?i f)) ?d (Some (offsets ?i @ offsets f)) = f"
    unfolding id_then_wires [OF f t] using t by simp
  then show ?thesis unfolding then_built [OF ok eq i f] by simp
qed


section \<open>The identity laws\<close>

text \<open>
  C3.  The identity on \<open>t\<close> is returned; composed on the left of a hypergraph with
  domain \<open>t\<close>, or on the right of a hypergraph with codomain \<open>t\<close>, it returns a
  hypergraph equal to the given one in the sense of \<^verbatim>\<open>__eq__\<close>; it is the very same
  value.
\<close>

theorem identity_laws:
  assumes "adjoints_ok K" and "is_hypergraph K f"
  shows "\<exists>i. idH K t = Inr i
           \<and> (domH f = t \<longrightarrow> (\<exists>h. thenH K i f = Inr h \<and> hypergraph_eq K h f \<and> h = f))
           \<and> (codH f = t \<longrightarrow> (\<exists>h. thenH K f i = Inr h \<and> hypergraph_eq K h f \<and> h = f))"
proof (intro exI conjI impI)
  note f = is_hypergraph_wf [OF assms(2)]
  show "idH K t = Inr (identity K t)" by (rule id_built [OF assms(1)])
  show "thenH K (identity K t) f = Inr f" if "domH f = t"
    by (rule id_then [OF assms(1) f that])
  show "thenH K f (identity K t) = Inr f" if "codH f = t"
    by (rule then_id [OF assms(1) f that])
qed (simp_all add: hypergraph_eq_refl)

theorem identity_laws_witness:
  "adjoints_ok frobenius \<and> is_hypergraph frobenius hyp_f
   \<and> domH hyp_f = [''x''] \<and> codH hyp_f = [''y'']
   \<and> idH frobenius [''x''] = Inr (identity frobenius [''x''])
   \<and> thenH frobenius (identity frobenius [''x'']) hyp_f = Inr hyp_f
   \<and> idH frobenius [''y''] = Inr (identity frobenius [''y''])
   \<and> thenH frobenius hyp_f (identity frobenius [''y'']) = Inr hyp_f
   \<and> hypergraph_eq frobenius hyp_f hyp_f"
proof -
  have d: "domH hyp_f = [''x'']" and c: "codH hyp_f = [''y'']" by (simp_all add: hyp_f_def)
  have ix: "idH frobenius [''x''] = Inr (identity frobenius [''x''])" by code_simp
  have iy: "idH frobenius [''y''] = Inr (identity frobenius [''y''])" by code_simp
  from identity_laws [OF adjoints_ok_frobenius is_hypergraph_f, of "[''x'']"] d ix
  have l: "thenH frobenius (identity frobenius [''x'']) hyp_f = Inr hyp_f"
    and e: "hypergraph_eq frobenius hyp_f hyp_f"
    by auto
  from identity_laws [OF adjoints_ok_frobenius is_hypergraph_f, of "[''y'']"] c iy
  have r: "thenH frobenius hyp_f (identity frobenius [''y'']) = Inr hyp_f"
    by auto
  show ?thesis
    using adjoints_ok_frobenius is_hypergraph_f d c ix iy l r e by simp
qed

section \<open>The degree of a spider\<close>

lemma nth_spider_wires:
  assumes "wf K h" "s < n_spiders h"
  shows "spider_wires K h ! s = (source_ports K h s, sink_ports K h s)"
  using assms(2) unfolding spider_wires_ports [OF assms(1)] by simp

lemma length_spider_wires: "wf K h \<Longrightarrow> length (spider_wires K h) = n_spiders h"
  by (simp add: spider_wires_ports)

lemma ports_of_spider:
  assumes "wf K h"
  shows "source_ports K h s \<union> sink_ports K h s = {p. p < length (wires h) \<and> wires h ! p = s}"
    and "source_ports K h s \<inter> sink_ports K h s = {}"
    and "finite (source_ports K h s)" and "finite (sink_ports K h s)"
proof -
  have k: "k = Input \<or> k = Cod \<or> k = Dom \<or> k = Output" for k :: kind by (cases k) simp_all
  show "source_ports K h s \<union> sink_ports K h s = {p. p < length (wires h) \<and> wires h ! p = s}"
    using k unfolding source_ports_def sink_ports_def wf_ports_length [OF assms, symmetric] by blast
  show "source_ports K h s \<inter> sink_ports K h s = {}"
    unfolding source_ports_def sink_ports_def by auto
  show "finite (source_ports K h s)" "finite (sink_ports K h s)"
    unfolding source_ports_def sink_ports_def by simp_all
qed

lemma count_list_card: "count_list ws s = card {p. p < length ws \<and> ws ! p = s}"
proof -
  have "{p. p < length ws \<and> s = ws ! p} = {p. p < length ws \<and> ws ! p = s}" by auto
  then show ?thesis
    by (simp add: count_list_eq_length_filter length_filter_conv_card)
qed

lemma degree:
  assumes "wf K h"
  shows "card (source_ports K h s) + card (sink_ports K h s) = count_list (wires h) s"
proof -
  note p = ports_of_spider [OF assms, of s]
  have "card (source_ports K h s \<union> sink_ports K h s) = card (source_ports K h s) + card (sink_ports K h s)"
    by (rule card_Un_disjoint [OF p(3,4,2)])
  then show ?thesis unfolding p(1) count_list_card by simp
qed

lemma first_violation_eq:
  assumes w: "wf K h"
  shows "first_violation K h
         = map_option fst (find (\<lambda>(s, c). c \<notin> set [0, 2])
             (rev (map (\<lambda>s. (s, count_list (wires h) s)) [0..<n_spiders h])))"
proof -
  let ?Q = "\<lambda>(spider, typ, input_wires, output_wires). card input_wires + card output_wires \<notin> set [0::nat, 2]"
  let ?xs = "enumerate 0 (zip (spider_types h) (spider_wires K h))"
  let ?ys = "map (\<lambda>s. (s, count_list (wires h) s)) [0..<n_spiders h]"
  have l: "length (zip (spider_types h) (spider_wires K h)) = n_spiders h"
    using length_spider_wires [OF w] by (simp add: n_spiders_def)
  have "map_option fst (find ?Q xs) = map_option fst (find (\<lambda>(s, c). c \<notin> set [0, 2]) ys)"
    if "list_all2 (\<lambda>x y. fst x = fst y \<and> ?Q x = (snd y \<notin> set [0, 2])) xs ys" for xs ys
    using that by (induction xs ys rule: list_all2_induct) (auto simp: split_beta)
  moreover have "list_all2 (\<lambda>x y. fst x = fst y \<and> ?Q x = (snd y \<notin> set [0, 2])) (rev ?xs) (rev ?ys)"
    unfolding list_all2_rev
  proof (rule list_all2_all_nthI)
    show "length ?xs = length ?ys" using l by simp
    fix s assume "s < length ?xs"
    then have s: "s < n_spiders h" using l by (simp del: length_zip)
    have x: "?xs ! s = (s, spider_types h ! s, source_ports K h s, sink_ports K h s)"
      using s l nth_spider_wires [OF w s] by (simp add: nth_enumerate_eq n_spiders_def)
    have y: "?ys ! s = (s, count_list (wires h) s)" using s by simp
    show "fst (?xs ! s) = fst (?ys ! s) \<and> ?Q (?xs ! s) = (snd (?ys ! s) \<notin> set [0, 2])"
      unfolding x y prod.case fst_conv snd_conv degree [OF w] by simp
  qed
  ultimately show ?thesis unfolding first_violation_def by blast
qed

lemma first_violation_None:
  assumes w: "wf K h"
  shows "first_violation K h = None \<longleftrightarrow> is_bijective h"
  unfolding first_violation_eq [OF w] is_bijective_def
  by (auto simp: find_None_iff list_all_iff)

lemma first_violation_Some:
  assumes w: "wf K h" and v: "first_violation K h = Some s"
  shows "s < n_spiders h" and "count_list (wires h) s \<noteq> 0" and "count_list (wires h) s \<noteq> 2"
proof -
  define ys where "ys = rev (map (\<lambda>s. (s, count_list (wires h) s)) [0..<n_spiders h])"
  define Q where "Q = (\<lambda>(s :: nat, c :: nat). c \<notin> set [0, 2])"
  from v have "\<exists>z. find Q ys = Some z \<and> fst z = s"
    unfolding first_violation_eq [OF w] map_option_eq_Some ys_def Q_def .
  then obtain z where z: "find Q ys = Some z" "fst z = s" by (elim exE conjE)
  from find_Some_iff [THEN iffD1, OF z(1)] obtain i where i: "i < length ys" "Q (ys ! i)" "z = ys ! i"
    by (elim exE conjE)
  have "z \<in> set ys" unfolding i(3) using i(1) by (rule nth_mem)
  then have "z \<in> (\<lambda>s. (s, count_list (wires h) s)) ` {0..<n_spiders h}"
    unfolding ys_def by (simp only: set_rev set_map set_upt)
  then obtain s' where s': "s' \<in> {0..<n_spiders h}" "z = (s', count_list (wires h) s')"
    by (elim imageE)
  have e: "s' = s" using z(2) s'(2) by simp
  have "Q z" using i(2) unfolding i(3) [symmetric] .
  then have q: "count_list (wires h) s \<notin> set [0, 2]" unfolding s'(2) e Q_def prod.case .
  show "s < n_spiders h" using s'(1) e by simp
  show "count_list (wires h) s \<noteq> 0" "count_list (wires h) s \<noteq> 2" using q by simp_all
qed


section \<open>Rewiring the ports of a spider\<close>

lemma length_fold_update [simp]:
  "length (fold (\<lambda>(j, port) ws. ws[port := N + j]) xs W) = length W"
  by (induction xs arbitrary: W) (simp_all add: split_beta)

lemma fold_update_nth:
  assumes "distinct ps" "p < length W"
  shows "fold (\<lambda>(j, port) ws. ws[port := N + j]) (enumerate k ps) W ! p
         = (if p \<in> set ps then N + (k + index_of ps p) else W ! p)"
  using assms
proof (induction ps arbitrary: k W)
  case Nil then show ?case by simp
next
  case (Cons x xs)
  have d: "distinct xs" and x: "x \<notin> set xs" using Cons.prems(1) by simp_all
  have l: "p < length (W[x := N + k])" using Cons.prems(2) by simp
  have "fold (\<lambda>(j, port) ws. ws[port := N + j]) (enumerate k (x # xs)) W ! p
      = fold (\<lambda>(j, port) ws. ws[port := N + j]) (enumerate (Suc k) xs) (W[x := N + k]) ! p"
    by simp
  also have "\<dots> = (if p \<in> set xs then N + (Suc k + index_of xs p) else W[x := N + k] ! p)"
    by (rule Cons.IH [OF d l])
  also have "\<dots> = (if p \<in> set (x # xs) then N + (k + index_of (x # xs) p) else W ! p)"
    using x Cons.prems(2) by (cases "p = x") auto
  finally show ?case .
qed

lemma rewired_eq:
  assumes d: "distinct ps" and s: "set ps = {p. p < length W \<and> W ! p = s}"
  shows "fold (\<lambda>(j, port) ws. ws[port := N + j]) (enumerate 0 ps) W
         = map (\<lambda>p. if W ! p = s then N + index_of ps p else W ! p) [0..<length W]"
proof (rule nth_equalityI)
  show "length (fold (\<lambda>(j, port) ws. ws[port := N + j]) (enumerate 0 ps) W)
        = length (map (\<lambda>p. if W ! p = s then N + index_of ps p else W ! p) [0..<length W])"
    by simp
  fix p assume "p < length (fold (\<lambda>(j, port) ws. ws[port := N + j]) (enumerate 0 ps) W)"
  then have p: "p < length W" by simp
  then have "p \<in> set ps \<longleftrightarrow> W ! p = s" unfolding s by simp
  then show "fold (\<lambda>(j, port) ws. ws[port := N + j]) (enumerate 0 ps) W ! p
        = map (\<lambda>p. if W ! p = s then N + index_of ps p else W ! p) [0..<length W] ! p"
    unfolding fold_update_nth [OF d p] using p by simp
qed

lemma rewired_mset:
  assumes d: "distinct ps" and s: "set ps = {p. p < length W \<and> W ! p = s}"
  shows "mset (fold (\<lambda>(j, port) ws. ws[port := N + j]) (enumerate 0 ps) W)
         = filter_mset (\<lambda>c. c \<noteq> s) (mset W) + mset [N..<N + length ps]"
proof -
  let ?g = "\<lambda>p. if W ! p = s then N + index_of ps p else W ! p"
  let ?M = "mset [0..<length W]"
  have A: "image_mset ?g (filter_mset (\<lambda>p. W ! p = s) ?M) = mset [N..<N + length ps]"
  proof -
    have "set (filter (\<lambda>p. W ! p = s) [0..<length W]) = set ps" unfolding s by auto
    then have "mset (filter (\<lambda>p. W ! p = s) [0..<length W]) = mset ps"
      by (rule set_eq_iff_mset_eq_distinct [THEN iffD1, rotated 2]) (simp_all add: d)
    then have "image_mset ?g (filter_mset (\<lambda>p. W ! p = s) ?M) = mset (map ?g ps)"
      by simp
    also have "map ?g ps = map (\<lambda>p. N + index_of ps p) ps"
      by (rule map_cong [OF refl]) (simp add: s)
    also have "\<dots> = map (\<lambda>j. j + N) (map (index_of ps) ps)" by (simp add: add.commute)
    also have "\<dots> = [N..<N + length ps]"
      unfolding map_index_of_self [OF d] map_add_upt by (simp add: add.commute)
    finally show ?thesis .
  qed
  have "image_mset ?g (filter_mset (\<lambda>p. W ! p \<noteq> s) ?M)
      = image_mset (\<lambda>p. W ! p) (filter_mset (\<lambda>p. W ! p \<noteq> s) ?M)"
    by (rule image_mset_cong) simp
  also have "\<dots> = filter_mset (\<lambda>c. c \<noteq> s) (image_mset (\<lambda>p. W ! p) ?M)"
    by (simp add: filter_mset_image_mset)
  also have "image_mset (\<lambda>p. W ! p) ?M = mset (map (\<lambda>p. W ! p) [0..<length W])" by simp
  also have "\<dots> = mset W" by (simp only: map_nth)
  finally have B: "image_mset ?g (filter_mset (\<lambda>p. W ! p \<noteq> s) ?M) = filter_mset (\<lambda>c. c \<noteq> s) (mset W)" .
  have "?M = filter_mset (\<lambda>p. W ! p = s) ?M + filter_mset (\<lambda>p. W ! p \<noteq> s) ?M"
    by (rule multiset_partition)
  then have "image_mset ?g ?M = image_mset ?g (filter_mset (\<lambda>p. W ! p = s) ?M)
      + image_mset ?g (filter_mset (\<lambda>p. W ! p \<noteq> s) ?M)"
    by (metis image_mset_union)
  then have "mset (map ?g [0..<length W]) = filter_mset (\<lambda>c. c \<noteq> s) (mset W) + mset [N..<N + length ps]"
    unfolding A B by (simp add: add.commute)
  then show ?thesis unfolding rewired_eq [OF d s] .
qed

section \<open>Labels that do not occur twice\<close>

lemma count_list_map_inj:
  "inj_on f (insert c (set ws)) \<Longrightarrow> count_list (map f ws) (f c) = count_list ws c"
proof (induction ws)
  case Nil then show ?case by simp
next
  case (Cons x xs)
  have "inj_on f (insert c (set xs))" using Cons.prems by (rule inj_on_subset) auto
  then have "count_list (map f xs) (f c) = count_list xs c" by (rule Cons.IH)
  moreover have "f x = f c \<longleftrightarrow> x = c" using Cons.prems by (auto simp: inj_on_def)
  ultimately show ?case by simp
qed

lemma violations_map:
  assumes "inj_on f (set ws)"
  shows "violations (map f ws) = f ` violations ws"
proof -
  have "count_list (map f ws) (f c) = count_list ws c" if "c \<in> set ws" for c
    using that assms by (intro count_list_map_inj) (simp add: insert_absorb)
  then show ?thesis unfolding violations_def by auto
qed

lemma card_violations_map:
  assumes "inj_on f (set ws)"
  shows "card (violations (map f ws)) = card (violations ws)"
proof -
  have "inj_on f (violations ws)"
    using assms by (rule inj_on_subset) (auto simp: violations_def)
  then show ?thesis unfolding violations_map [OF assms] by (rule card_image)
qed

lemma finite_violations [simp]: "finite (violations ws)"
  by (simp add: violations_def)

lemma violations_rewired:
  assumes m: "mset ws2 = filter_mset (\<lambda>c. c \<noteq> s) (mset W) + mset [N..<N + d] + mset [N..<N + d]"
    and r: "\<forall>c\<in>set W. c < N" and s: "s < N"
  shows "violations ws2 = violations W - {s}"
proof -
  have u: "count_list [N..<N + d] c = (if N \<le> c \<and> c < N + d then 1 else 0)" for c
    by (induction d) auto
  have c: "count_list ws2 c = (if c = s then 0 else count_list W c) + (if N \<le> c \<and> c < N + d then 2 else 0)" for c
  proof -
    have "count_list ws2 c = count (mset ws2) c" by (rule count_mset [symmetric])
    also have "\<dots> = (if c = s then 0 else count (mset W) c) + 2 * count (mset [N..<N + d]) c"
      unfolding m by simp
    finally show ?thesis using u [of c] by (simp add: count_mset)
  qed
  have z: "count_list W c = 0" if "N \<le> c" for c
    using that r by (force simp: count_list_0_iff)
  have v: "violations ws = {c. count_list ws c \<noteq> 0 \<and> count_list ws c \<noteq> 2}" for ws
    unfolding violations_def by (auto simp: count_list_0_iff)
  show ?thesis unfolding v c using z s by auto
qed


section \<open>One rewrite of \<^verbatim>\<open>make_bijective\<close>\<close>

lemma shaped_length: "shaped K bs segs \<Longrightarrow> length (flat segs) = length (box_objs K bs)"
  unfolding shaped_def
  by (induction bs segs rule: list_all2_induct) (auto simp: box_objs_def)

lemma length_flat_take:
  assumes "wf K h"
  shows "length (concat (map (\<lambda>(dom_wires, cod_wires). dom_wires @ cod_wires) (take dp (box_wires K h))))
         = length (box_objs K (take dp (boxes h)))"
proof -
  have "shaped K (take dp (boxes h)) (take dp (box_wires K h))"
    using box_wires_inner(2) [OF assms] unfolding shaped_def by (rule list_all2_takeI)
  then show ?thesis using shaped_length unfolding flat_def by blast
qed

lemma nth_remove:
  assumes "c \<noteq> s" "c < length xs"
  shows "(take s xs @ drop (Suc s) xs) ! (if s < c then c - 1 else c) = xs ! c"
proof (cases "s < c")
  case True
  then have l: "length (take s xs) = s" using assms(2) by simp
  have "(take s xs @ drop (Suc s) xs) ! (length (take s xs) + (c - 1 - s)) = drop (Suc s) xs ! (c - 1 - s)"
    by (rule nth_append_length_plus)
  moreover have "s + (c - 1 - s) = c - 1" "Suc s + (c - 1 - s) = c" using True by simp_all
  ultimately show ?thesis using True assms(2) unfolding l by simp
next
  case False
  then have "c < s" using assms(1) by simp
  then show ?thesis using assms(2) by (simp add: nth_append)
qed


lemma bijective_rewrite_form:
  assumes sw: "spider_wires K h ! s = (ins, outs)"
  shows "\<exists>dp. bijective_rewrite K iter h s = Hypergraph K (domH h) (codH h)
      (take dp (boxes h) @ [spider_factory K (card ins) (card outs) (spider_types h ! s)] @ drop dp (boxes h))
      (map (\<lambda>w. if w > s then w - 1 else w)
         (take (length (domH h) + length (concat (map (\<lambda>(dom_wires, cod_wires). dom_wires @ cod_wires)
                                                      (take dp (box_wires K h)))))
            (fold (\<lambda>(j, port) ws. ws[port := length (spider_types h) + j])
               (enumerate 0 (iter (ins \<union> outs))) (wires h))
          @ [length (spider_types h)..<length (spider_types h) + (card ins + card outs)]
          @ drop (length (domH h) + length (concat (map (\<lambda>(dom_wires, cod_wires). dom_wires @ cod_wires)
                                                      (take dp (box_wires K h)))))
            (fold (\<lambda>(j, port) ws. ws[port := length (spider_types h) + j])
               (enumerate 0 (iter (ins \<union> outs))) (wires h))))
      (TypeSeq (atoms (take s (spider_types h @ replicate (card ins + card outs) (spider_types h ! s))
                       @ drop (Suc s) (spider_types h @ replicate (card ins + card outs) (spider_types h ! s)))))
      (Some (take dp (offsets h) @ [None] @ drop dp (offsets h)))"
  unfolding bijective_rewrite_def Let_def sw prod.case by (rule exI) (rule refl)

lemma rewired_typed:
  assumes typed: "list_all2 (port_ok K T) (pre @ post) W"
    and sN: "s < length T" and d: "distinct ps" and sp: "set ps = {p. p < length W \<and> W ! p = s}"
    and norm: "map (tynorm K) T = T"
    and ws1: "ws1 = fold (\<lambda>(j, port) ws. ws[port := length T + j]) (enumerate 0 ps) W"
    and T2: "T2 = T @ replicate (length ps) (T ! s)"
  shows "list_all2 (port_ok K (map (tynorm K) (take s T2 @ drop (Suc s) T2)))
           (pre @ replicate (length ps) (T ! s) @ post)
           (map (\<lambda>w. if w > s then w - 1 else w)
              (take (length pre) ws1 @ [length T..<length T + length ps] @ drop (length pre) ws1))"
proof -
  let ?N = "length T" and ?d = "length ps" and ?ty = "T ! s"
  let ?R = "\<lambda>ob c. c \<noteq> s \<and> port_ok K T2 ob c"
  let ?types = "take s T2 @ drop (Suc s) T2"
  have lT2: "length T2 = ?N + ?d" by (simp add: T2)
  have new: "T2 ! (?N + j) = ?ty" if "j < ?d" for j
  proof -
    have "(T @ replicate ?d ?ty) ! (length T + j) = replicate ?d ?ty ! j"
      by (rule nth_append_length_plus)
    then show ?thesis using that by (simp add: T2)
  qed
  have lW: "length (pre @ post) = length W" using typed by (rule list_all2_lengthD)
  have w1: "ws1 = map (\<lambda>p. if W ! p = s then ?N + index_of ps p else W ! p) [0..<length W]"
    unfolding ws1 by (rule rewired_eq [OF d sp])
  have r1: "list_all2 ?R (pre @ post) ws1"
  proof (rule list_all2_all_nthI)
    show "length (pre @ post) = length ws1" using lW by (simp add: w1)
    fix p assume "p < length (pre @ post)"
    then have p: "p < length W" using lW by simp
    have pk: "port_ok K T ((pre @ post) ! p) (W ! p)" using typed p by (rule list_all2_nthD2)
    show "ws1 ! p \<noteq> s \<and> port_ok K T2 ((pre @ post) ! p) (ws1 ! p)"
    proof (cases "W ! p = s")
      case True
      then have "p \<in> set ps" using p by (simp add: sp)
      then have j: "index_of ps p < ?d" by (rule index_of_less)
      have e: "ws1 ! p = ?N + index_of ps p" using p True by (simp add: w1)
      have "(pre @ post) ! p = ?ty \<or> (pre @ post) ! p = radj K ?ty"
        using pk True by (simp add: port_ok_def)
      then have "port_ok K T2 ((pre @ post) ! p) (?N + index_of ps p)"
        using j new [OF j] lT2 by (simp add: port_ok_def)
      then show ?thesis unfolding e using sN by simp
    next
      case False
      have e: "ws1 ! p = W ! p" using p False by (simp add: w1)
      have "port_ok K T2 ((pre @ post) ! p) (W ! p)" unfolding T2 using pk by (rule port_ok_left)
      then show ?thesis unfolding e using False by simp
    qed
  qed
  have r2: "list_all2 ?R (replicate ?d ?ty) [?N..<?N + ?d]"
  proof (rule list_all2_all_nthI)
    show "length (replicate ?d ?ty) = length [?N..<?N + ?d]" by simp
    fix j assume "j < length (replicate ?d ?ty)"
    then have j: "j < ?d" by simp
    then show "[?N..<?N + ?d] ! j \<noteq> s \<and> port_ok K T2 (replicate ?d ?ty ! j) ([?N..<?N + ?d] ! j)"
      using new [OF j] lT2 sN by (simp add: port_ok_def)
  qed
  have "list_all2 ?R (take (length pre) (pre @ post)) (take (length pre) ws1)"
    using r1 by (rule list_all2_takeI)
  then have r3: "list_all2 ?R pre (take (length pre) ws1)" by simp
  have "list_all2 ?R (drop (length pre) (pre @ post)) (drop (length pre) ws1)"
    using r1 by (rule list_all2_dropI)
  then have r4: "list_all2 ?R post (drop (length pre) ws1)" by simp
  have r5: "list_all2 ?R (pre @ replicate ?d ?ty @ post)
              (take (length pre) ws1 @ [?N..<?N + ?d] @ drop (length pre) ws1)"
    by (intro list_all2_appendI r2 r3 r4)
  have "set ?types \<subseteq> set T2" using set_take_subset [of s T2] set_drop_subset [of "Suc s" T2] by auto
  also have "\<dots> \<subseteq> set T" using sN by (auto simp: T2)
  finally have sub: "set ?types \<subseteq> set T" .
  have "tynorm K t = t" if "t \<in> set T" for t
  proof -
    from that obtain i where i: "i < length T" "T ! i = t" by (auto simp: in_set_conv_nth)
    have "map (tynorm K) T ! i = tynorm K (T ! i)" using i(1) by (rule nth_map)
    then show ?thesis using i(2) unfolding norm by simp
  qed
  then have nt: "map (tynorm K) ?types = ?types" using sub by (intro map_idI) blast
  have lt: "length ?types = ?N + ?d - 1" using sN lT2 by simp
  have step: "port_ok K ?types ob (if s < c then c - 1 else c)" if "c \<noteq> s \<and> port_ok K T2 ob c" for ob c
  proof -
    have c: "c \<noteq> s" "c < length T2" "ob = T2 ! c \<or> ob = radj K (T2 ! c)"
      using that by (simp_all add: port_ok_def)
    have "(if s < c then c - 1 else c) < length ?types"
      unfolding lt using c(1,2) sN lT2 by (cases "s < c") simp_all
    then show ?thesis unfolding port_ok_def nth_remove [OF c(1,2)] using c(3) by simp
  qed
  have "list_all2 (\<lambda>ob c. port_ok K ?types ob (if s < c then c - 1 else c))
          (pre @ replicate ?d ?ty @ post) (take (length pre) ws1 @ [?N..<?N + ?d] @ drop (length pre) ws1)"
    using r5 by (rule list_all2_mono) (rule step)
  then show ?thesis unfolding nt list_all2_map2 .
qed


lemma rewired_violations:
  assumes rng: "\<forall>c\<in>set W. c < N" and sN: "s < N"
    and d: "distinct ps" and sp: "set ps = {p. p < length W \<and> W ! p = s}"
    and sW: "s \<in> set W" and c2: "count_list W s \<noteq> 2"
    and ws1: "ws1 = fold (\<lambda>(j, port) ws. ws[port := N + j]) (enumerate 0 ps) W"
    and ws3: "ws3 = map (\<lambda>w. if w > s then w - 1 else w) (take i ws1 @ [N..<N + length ps] @ drop i ws1)"
  shows "card (violations (map (index_of (uniq ws3)) ws3)) < card (violations W)"
proof -
  let ?ws2 = "take i ws1 @ [N..<N + length ps] @ drop i ws1"
  let ?dec = "\<lambda>w. if w > s then w - 1 else w"
  have "mset ?ws2 = mset (take i ws1 @ drop i ws1) + mset [N..<N + length ps]"
    unfolding mset_append by (simp add: add.commute add.left_commute)
  then have m: "mset ?ws2 = filter_mset (\<lambda>c. c \<noteq> s) (mset W) + mset [N..<N + length ps] + mset [N..<N + length ps]"
    unfolding append_take_drop_id ws1 rewired_mset [OF d sp] .
  have v2: "violations ?ws2 = violations W - {s}" by (rule violations_rewired [OF m rng sN])
  have "s \<notin> set_mset (mset ?ws2)" unfolding m using sN by simp
  then have ns: "s \<notin> set ?ws2" by simp
  have "inj_on ?dec (set ?ws2)"
  proof (rule inj_onI)
    fix x y assume "x \<in> set ?ws2" "y \<in> set ?ws2" and e: "?dec x = ?dec y"
    then have "x \<noteq> s" "y \<noteq> s" using ns by blast+
    then show "x = y" using e by (cases "s < x"; cases "s < y") simp_all
  qed
  then have 1: "card (violations ws3) = card (violations ?ws2)"
    unfolding ws3 by (rule card_violations_map)
  have "inj_on (index_of (uniq ws3)) (set ws3)" using inj_on_index_of [of "uniq ws3"] by simp
  then have 2: "card (violations (map (index_of (uniq ws3)) ws3)) = card (violations ws3)"
    by (rule card_violations_map)
  have "s \<in> violations W" using sW c2 by (simp add: violations_def)
  then have "card (violations W - {s}) < card (violations W)"
    by (intro card_Diff1_less) simp_all
  then show ?thesis unfolding 2 1 v2 .
qed

lemma rewrite_step:
  assumes ok: "adjoints_ok K" and sp: "spiders_ok K" and it: "lists_sets iter"
    and w: "wf K h" and v: "first_violation K h = Some s"
  shows "\<exists>h'. bijective_rewrite K iter h s = Inr h' \<and> is_hypergraph K h'
              \<and> card (violations (wires h')) < card (violations (wires h))"
proof -
  let ?W = "wires h" and ?T = "spider_types h" and ?N = "length (spider_types h)"
  define ins where "ins = source_ports K h s"
  define outs where "outs = sink_ports K h s"
  define ps where "ps = iter (ins \<union> outs)"
  note fv = first_violation_Some [OF w v]
  have sN: "s < ?N" using fv(1) by (simp add: n_spiders_def)
  have sw: "spider_wires K h ! s = (ins, outs)"
    unfolding ins_def outs_def by (rule nth_spider_wires [OF w fv(1)])
  note po = ports_of_spider [OF w, of s]
  have un: "ins \<union> outs = {p. p < length ?W \<and> ?W ! p = s}" unfolding ins_def outs_def by (rule po(1))
  have "finite (ins \<union> outs)" unfolding un by simp
  then have "set ps = ins \<union> outs \<and> distinct ps" using it unfolding lists_sets_def ps_def by blast
  then have dps: "distinct ps" and sps: "set ps = {p. p < length ?W \<and> ?W ! p = s}"
    unfolding un by simp_all
  have "length ps = card (set ps)" using dps by (simp add: distinct_card)
  also have "\<dots> = count_list ?W s" unfolding sps count_list_card ..
  finally have lps: "length ps = count_list ?W s" .
  have dg: "card ins + card outs = length ps"
    unfolding lps ins_def outs_def by (rule degree [OF w])
  have sW: "s \<in> set ?W" using fv(2) by (simp add: count_list_0_iff)
  have rng: "\<forall>c\<in>set ?W. c < ?N" using wf_wires_range [OF w] by (simp add: n_spiders_def)
  from bijective_rewrite_form [OF sw, of iter] obtain dp where
    form: "bijective_rewrite K iter h s = Hypergraph K (domH h) (codH h)
      (take dp (boxes h) @ [spider_factory K (card ins) (card outs) (?T ! s)] @ drop dp (boxes h))
      (map (\<lambda>w. if w > s then w - 1 else w)
         (take (length (domH h) + length (concat (map (\<lambda>(dom_wires, cod_wires). dom_wires @ cod_wires)
                                                      (take dp (box_wires K h)))))
            (fold (\<lambda>(j, port) ws. ws[port := ?N + j]) (enumerate 0 (iter (ins \<union> outs))) ?W)
          @ [?N..<?N + (card ins + card outs)]
          @ drop (length (domH h) + length (concat (map (\<lambda>(dom_wires, cod_wires). dom_wires @ cod_wires)
                                                      (take dp (box_wires K h)))))
            (fold (\<lambda>(j, port) ws. ws[port := ?N + j]) (enumerate 0 (iter (ins \<union> outs))) ?W)))
      (TypeSeq (atoms (take s (?T @ replicate (card ins + card outs) (?T ! s))
                       @ drop (Suc s) (?T @ replicate (card ins + card outs) (?T ! s)))))
      (Some (take dp (offsets h) @ [None] @ drop dp (offsets h)))"
    by blast
  define pre where "pre = domH h @ box_objs K (take dp (boxes h))"
  define post where "post = box_objs K (drop dp (boxes h)) @ codH h"
  define ws1 where "ws1 = fold (\<lambda>(j, port) ws. ws[port := ?N + j]) (enumerate 0 ps) ?W"
  define T2 where "T2 = ?T @ replicate (length ps) (?T ! s)"
  define bs where "bs = take dp (boxes h) @ [spider_factory K (card ins) (card outs) (?T ! s)] @ drop dp (boxes h)"
  define ws3 where "ws3 = map (\<lambda>w. if w > s then w - 1 else w)
                            (take (length pre) ws1 @ [?N..<?N + length ps] @ drop (length pre) ws1)"
  define offs where "offs = take dp (offsets h) @ [None] @ drop dp (offsets h)"
  have lpre: "length (domH h) + length (concat (map (\<lambda>(dom_wires, cod_wires). dom_wires @ cod_wires)
                                                      (take dp (box_wires K h)))) = length pre"
    unfolding length_flat_take [OF w] pre_def by simp
  have form': "bijective_rewrite K iter h s
      = Hypergraph K (domH h) (codH h) bs ws3 (TypeSeq (atoms (take s T2 @ drop (Suc s) T2))) (Some offs)"
    unfolding form lpre dg ps_def [symmetric] ws1_def [symmetric] T2_def [symmetric] bs_def [symmetric]
      ws3_def [symmetric] offs_def [symmetric] ..
  have "box_objs K (take dp (boxes h) @ drop dp (boxes h)) = box_objs K (boxes h)" by simp
  then have pp: "pre @ post = port_objs K (domH h) (codH h) (boxes h)"
    unfolding port_objs_eq pre_def post_def box_objs_append by simp
  have "box_objs K [spider_factory K (card ins) (card outs) (?T ! s)]
      = replicate (card ins) (?T ! s) @ replicate (card outs) (?T ! s)"
    using sp by (simp add: box_objs_def spiders_ok_def)
  also have "\<dots> = replicate (length ps) (?T ! s)" unfolding dg [symmetric] by (rule replicate_add [symmetric])
  finally have "box_objs K bs = box_objs K (take dp (boxes h)) @ replicate (length ps) (?T ! s) @ box_objs K (drop dp (boxes h))"
    unfolding bs_def box_objs_append by simp
  then have pb: "port_objs K (domH h) (codH h) bs = pre @ replicate (length ps) (?T ! s) @ post"
    unfolding port_objs_eq pre_def post_def by simp
  have typed: "list_all2 (port_ok K ?T) (pre @ post) ?W" unfolding pp using w by (simp add: wf_def)
  have "list_all2 (port_ok K (map (tynorm K) (take s T2 @ drop (Suc s) T2)))
           (port_objs K (domH h) (codH h) bs) ws3"
    unfolding pb ws3_def
    by (rule rewired_typed [OF typed sN dps sps wf_tynorm [OF ok w] ws1_def T2_def])
  then have acc: "accepts K (domH h) (codH h) bs ws3 (enumerate 0 (atoms (take s T2 @ drop (Suc s) T2)))"
    unfolding accepts_seq .
  define h' where "h' = built K (domH h) (codH h) bs ws3 (enumerate 0 (atoms (take s T2 @ drop (Suc s) T2))) (Some offs)"
  have r: "bijective_rewrite K iter h s = Inr h'"
    unfolding form' Hypergraph_eq_Inr h'_def using acc by (simp add: types_dict_def)
  have hy: "is_hypergraph K h'" using r unfolding form' by (rule is_hypergraphI)
  have "card (violations (map (index_of (uniq ws3)) ws3)) < card (violations ?W)"
    by (rule rewired_violations [OF rng sN dps sps sW fv(3) ws1_def ws3_def])
  then have "card (violations (wires h')) < card (violations ?W)" by (simp add: h'_def)
  then show ?thesis using r hy by blast
qed


section \<open>\<^verbatim>\<open>make_bijective\<close> returns a bijective hypergraph\<close>

lemma make_bijective_total:
  assumes ok: "adjoints_ok K" and sp: "spiders_ok K" and it: "lists_sets iter"
    and h: "is_hypergraph K h"
  shows "\<exists>h'. make_bijective K iter h = Some (Inr h') \<and> is_hypergraph K h' \<and> is_bijective h'"
  using h
proof (induction "card (violations (wires h))" arbitrary: h rule: less_induct)
  case less
  note w = is_hypergraph_wf [OF less.prems]
  show ?case
  proof (cases "first_violation K h")
    case None
    then have "is_bijective h" using first_violation_None [OF w] by simp
    moreover have "make_bijective K iter h = Some (Inr h)"
      by (subst make_bijective.simps) (simp add: None)
    ultimately show ?thesis using less.prems by blast
  next
    case (Some s)
    from rewrite_step [OF ok sp it w Some] obtain h1 where h1:
      "bijective_rewrite K iter h s = Inr h1" "is_hypergraph K h1"
      "card (violations (wires h1)) < card (violations (wires h))"
      by blast
    have "make_bijective K iter h = make_bijective K iter h1"
      by (subst make_bijective.simps) (simp add: Some h1(1))
    then show ?thesis using less.hyps [OF h1(3) h1(2)] by simp
  qed
qed

lemma spiders_32: "spiders frobenius 3 2 [''x''] = Inr hyp_spider32"
  by code_simp

lemma make_bijective_32:
  "make_bijective frobenius sorted_list_of_set hyp_spider32 = Some (Inr hyp_spider32_bijective)"
proof -
  have 1: "first_violation frobenius hyp_spider32 = Some 0" by code_simp
  have 2: "bijective_rewrite frobenius sorted_list_of_set hyp_spider32 0 = Inr hyp_spider32_bijective"
    by code_simp
  have 3: "first_violation frobenius hyp_spider32_bijective = None" by code_simp
  have "make_bijective frobenius sorted_list_of_set hyp_spider32
      = make_bijective frobenius sorted_list_of_set hyp_spider32_bijective"
    by (subst make_bijective.simps) (simp add: 1 2)
  also have "\<dots> = Some (Inr hyp_spider32_bijective)"
    by (subst make_bijective.simps) (simp add: 3)
  finally show ?thesis .
qed

lemma spiders_ok_frobenius: "spiders_ok frobenius"
  by (simp add: spiders_ok_def frobenius_def)

lemma lists_sets_sorted: "lists_sets sorted_list_of_set"
  by (simp add: lists_sets_def)

text \<open>
  C2.  \<^verbatim>\<open>make_bijective\<close> returns for every hypergraph, and what it returns is a
  hypergraph all of whose spiders have zero or two ports.  For \<^verbatim>\<open>spiders(3, 2, x)\<close> it
  returns the hypergraph with the one box \<^verbatim>\<open>Spider(3, 2, x)\<close> and the wires
  \<open>(0, 1, 2) + (0, 1, 2) + (3, 4) + (3, 4)\<close>; the ports of a spider are there iterated
  over in increasing order, as the interpreter does for a set of small integers.
\<close>

theorem make_bijective_spec:
  assumes "adjoints_ok K" and "spiders_ok K" and "lists_sets iter" and "is_hypergraph K h"
  shows "(\<exists>h'. make_bijective K iter h = Some (Inr h') \<and> is_hypergraph K h' \<and> is_bijective h')
         \<and> spiders frobenius 3 2 [''x''] = Inr hyp_spider32
         \<and> make_bijective frobenius sorted_list_of_set hyp_spider32 = Some (Inr hyp_spider32_bijective)
         \<and> boxes hyp_spider32_bijective = [SpiderBox 3 2 ''x'']
         \<and> wires hyp_spider32_bijective = [0, 1, 2] @ [0, 1, 2] @ [3, 4] @ [3, 4]"
proof -
  have "boxes hyp_spider32_bijective = [SpiderBox 3 2 ''x'']"
    "wires hyp_spider32_bijective = [0, 1, 2] @ [0, 1, 2] @ [3, 4] @ [3, 4]"
    by (simp_all add: hyp_spider32_bijective_def)
  then show ?thesis
    using make_bijective_total [OF assms] spiders_32 make_bijective_32 by blast
qed

theorem make_bijective_spec_witness:
  "adjoints_ok frobenius \<and> spiders_ok frobenius \<and> lists_sets sorted_list_of_set
   \<and> is_hypergraph frobenius hyp_spider32
   \<and> make_bijective frobenius sorted_list_of_set hyp_spider32 = Some (Inr hyp_spider32_bijective)
   \<and> is_hypergraph frobenius hyp_spider32_bijective \<and> is_bijective hyp_spider32_bijective"
proof -
  have h: "is_hypergraph frobenius hyp_spider32"
    using spiders_32 unfolding spiders_def by (rule is_hypergraphI)
  from make_bijective_spec [OF adjoints_ok_frobenius spiders_ok_frobenius lists_sets_sorted h]
  obtain h' where "make_bijective frobenius sorted_list_of_set hyp_spider32 = Some (Inr h')"
    "make_bijective frobenius sorted_list_of_set hyp_spider32 = Some (Inr hyp_spider32_bijective)"
    "is_hypergraph frobenius h'" "is_bijective h'"
    by blast
  then show ?thesis
    using adjoints_ok_frobenius spiders_ok_frobenius lists_sets_sorted h by simp
qed

end
